theory Spec2Isabelle
  imports Main
begin

section \<open>Python values used by \<^verbatim>\<open>docxml_parser.py\<close>\<close>

text \<open>
  A Python \<^verbatim>\<open>str\<close> is modelled as a \<^typ>\<open>string\<close>: a list of characters, each read
  as a code point between 0 and 255.  The exceptions the functions of the module can
  raise are values of \<open>error\<close>; a function that can raise returns \<open>error + 'a\<close>, with
  \<open>Inl\<close> for the exception.
\<close>

datatype error = ValueError | IndexError | UnboundLocalError

text \<open>\<^verbatim>\<open>str.isspace\<close> on one character (code points 9-13, 28-32, 133 and 160).\<close>

definition isspace :: "char \<Rightarrow> bool" where
  "isspace c = (let n = (of_char c :: nat)
                in (9 \<le> n \<and> n \<le> 13) \<or> (28 \<le> n \<and> n \<le> 32) \<or> n = 133 \<or> n = 160)"

text \<open>\<^verbatim>\<open>str.strip()\<close>: leading and trailing whitespace removed.\<close>

definition strip :: "string \<Rightarrow> string" where
  "strip s = rev (dropWhile isspace (rev (dropWhile isspace s)))"

text \<open>
  \<^verbatim>\<open>str.split()\<close> with no argument: the maximal runs of non-whitespace characters.
  The second argument of \<open>split_from\<close> is the word read so far.
\<close>

fun split_from :: "string \<Rightarrow> string \<Rightarrow> string list" where
  "split_from [] w = (if w = [] then [] else [w])"
| "split_from (c # cs) w =
     (if isspace c then (if w = [] then split_from cs [] else w # split_from cs [])
      else split_from cs (w @ [c]))"

definition split :: "string \<Rightarrow> string list" where
  "split s = split_from s []"

text \<open>\<^verbatim>\<open>str.lower()\<close>, character by character (A-Z and the capital letters of Latin-1).\<close>

definition lower_char :: "char \<Rightarrow> char" where
  "lower_char c = (let n = (of_char c :: nat)
                   in if (65 \<le> n \<and> n \<le> 90) \<or> (192 \<le> n \<and> n \<le> 222 \<and> n \<noteq> 215)
                      then char_of (n + 32) else c)"

definition lower :: "string \<Rightarrow> string" where
  "lower s = map lower_char s"

text \<open>\<^verbatim>\<open>s.startswith(p)\<close>.\<close>

definition startswith :: "string \<Rightarrow> string \<Rightarrow> bool" where
  "startswith s p = (take (length p) s = p)"

text \<open>
  \<^verbatim>\<open>s.replace(old, new)\<close>: every occurrence of \<open>old\<close>, found from the left without
  overlap, is replaced by \<open>new\<close>; an empty \<open>old\<close> matches before every character and at
  the end.
\<close>

fun replace_from :: "string \<Rightarrow> string \<Rightarrow> string \<Rightarrow> string" where
  "replace_from old new [] = []"
| "replace_from old new (c # cs) =
     (if startswith (c # cs) old
      then new @ replace_from old new (drop (length old - 1) cs)
      else c # replace_from old new cs)"

definition replace :: "string \<Rightarrow> string \<Rightarrow> string \<Rightarrow> string" where
  "replace s old new =
     (if old = [] then new @ concat (map (\<lambda>c. c # new) s) else replace_from old new s)"

text \<open>\<^verbatim>\<open>xs.index(x)\<close>: the position of the first element equal to \<open>x\<close>, or ValueError.\<close>

fun index :: "'a list \<Rightarrow> 'a \<Rightarrow> error + nat" where
  "index [] x = Inl ValueError"
| "index (y # ys) x =
     (if y = x then Inr 0
      else (case index ys x of Inl e \<Rightarrow> Inl e | Inr i \<Rightarrow> Inr (Suc i)))"

text \<open>\<^verbatim>\<open>xs[i]\<close>: a negative index counts from the end; out of range raises IndexError.\<close>

definition getitem :: "'a list \<Rightarrow> int \<Rightarrow> error + 'a" where
  "getitem xs i =
     (let j = (if i < 0 then i + int (length xs) else i)
      in if j < 0 \<or> int (length xs) \<le> j then Inl IndexError else Inr (xs ! nat j))"

text \<open>
  \<^verbatim>\<open>xs[start:stop]\<close>: a negative bound counts from the end, and both bounds are
  clipped to the list; slicing never raises.
\<close>

definition slice :: "'a list \<Rightarrow> int \<Rightarrow> int \<Rightarrow> 'a list" where
  "slice xs start stop =
     (let n = int (length xs);
          lo = (if start < 0 then max 0 (start + n) else min start n);
          hi = (if stop < 0 then max 0 (stop + n) else min stop n)
      in take (nat (hi - lo)) (drop (nat lo) xs))"

text \<open>\<^verbatim>\<open>str(n)\<close> for an integer: its decimal digits, with a minus sign when negative.\<close>

fun str_nat :: "nat \<Rightarrow> string" where
  "str_nat n =
     (if n < 10 then [char_of (48 + n)]
      else str_nat (n div 10) @ [char_of (48 + n mod 10)])"

declare str_nat.simps [simp del]

definition str :: "int \<Rightarrow> string" where
  "str n = (if n < 0 then CHR ''-'' # str_nat (nat (- n)) else str_nat (nat n))"

section \<open>The deletion merger\<close>

text \<open>
  \<^verbatim>\<open>merge_deletions\<close>: the loop over \<^verbatim>\<open>deletions[1:]\<close> carries \<^verbatim>\<open>current_del\<close> and the
  list \<^verbatim>\<open>merged\<close>; after the loop the last \<^verbatim>\<open>current_del\<close> is appended.
\<close>

type_synonym mark = "string \<times> string"

fun merge_loop :: "mark \<Rightarrow> mark list \<Rightarrow> mark list \<Rightarrow> mark list" where
  "merge_loop current_del [] merged = merged @ [current_del]"
| "merge_loop current_del (next_del # rest) merged =
     (if fst current_del = fst next_del
      then merge_loop (fst current_del, snd current_del @ '' '' @ snd next_del) rest merged
      else merge_loop next_del rest (merged @ [current_del]))"

definition merge_deletions :: "mark list \<Rightarrow> mark list" where
  "merge_deletions deletions =
     (case deletions of [] \<Rightarrow> [] | d # ds \<Rightarrow> merge_loop d ds [])"

section \<open>The element tree\<close>

text \<open>
  An element of the tree that \<^verbatim>\<open>ET.fromstring\<close> returns: its tag, its attribute
  dictionary, its text (None when the element has none) and its children.  Opening the
  container and parsing the markup happen before the functions below and are not part of
  the model: the input is the parsed root element.
\<close>

datatype element =
  Element (tag: string) (attrib: "string \<rightharpoonup> string") (etext: "string option")
    (children: "element list")

text \<open>
  The tree stores a qualified name as the namespace in braces followed by the local
  name; \<open>w_tag name\<close> is what the path \<^verbatim>\<open>w:name\<close> stands for under the prefix map \<^verbatim>\<open>ns\<close>.
\<close>

definition w_uri :: string where
  "w_uri = ''http://schemas.openxmlformats.org/wordprocessingml/2006/main''"

definition w_tag :: "string \<Rightarrow> string" where
  "w_tag name = ''{'' @ w_uri @ ''}'' @ name"

text \<open>The elements below \<open>e\<close> in document order, \<open>e\<close> itself left out.\<close>

fun descendants :: "element \<Rightarrow> element list" where
  "descendants (Element t a x cs) = concat (map (\<lambda>c. c # descendants c) cs)"

text \<open>\<^verbatim>\<open>e.findall('.//w:name', ns)\<close> is \<open>findall e (w_tag name)\<close>.\<close>

definition findall :: "element \<Rightarrow> string \<Rightarrow> element list" where
  "findall e name = filter (\<lambda>d. tag d = name) (descendants e)"

text \<open>The truth value of an optional string: None and the empty string are false.\<close>

definition truthy :: "string option \<Rightarrow> bool" where
  "truthy v = (case v of None \<Rightarrow> False | Some t \<Rightarrow> t \<noteq> [])"

definition extract_text_from_runs :: "element list \<Rightarrow> string" where
  "extract_text_from_runs runs =
     concat (map (\<lambda>run. case etext run of None \<Rightarrow> [] | Some t \<Rightarrow> t)
       (filter (\<lambda>run. truthy (etext run)) runs))"

section \<open>Context extraction and classification\<close>

definition get_surrounding_text :: "string \<Rightarrow> string \<Rightarrow> int \<Rightarrow> error + string" where
  "get_surrounding_text txt target window =
     (if strip target = [] then Inr txt
      else
        let words = split txt; target_words = split target
        in if target_words = [] then Inr txt
           else
             (case getitem target_words 0 of
                Inl e \<Rightarrow> (if e = ValueError then Inr txt else Inl e)
              | Inr first_word \<Rightarrow>
                 (case index words first_word of
                    Inl e \<Rightarrow> (if e = ValueError then Inr txt else Inl e)
                  | Inr i \<Rightarrow>
                     let start = max 0 (int i - window);
                         stop = min (int (length words))
                                   (int i + window + int (length target_words))
                     in Inr (concat (slice words start stop)))))"

definition is_partial_word_modification :: "string \<Rightarrow> string \<Rightarrow> bool" where
  "is_partial_word_modification original corrected =
     (length original \<noteq> length corrected \<and> startswith (lower original) (lower corrected))"

section \<open>Records and the state of the extraction\<close>

text \<open>One row of \<^verbatim>\<open>data\<close>; \<^verbatim>\<open>None\<close> in a text field is \<open>None\<close>.\<close>

record change_record =
  ID :: int
  original_single :: "string option"
  original_partial :: string
  original_sentence :: string
  correction_single :: "string option"
  correction_partial :: string
  corrected_sentence :: string
  change_type :: string

text \<open>
  The variables of \<^verbatim>\<open>extract_tracked_changes\<close> that live across iterations: the list
  \<^verbatim>\<open>data\<close>, the counter \<^verbatim>\<open>unique_id\<close>, and the locals \<^verbatim>\<open>original_partial\<close> and
  \<^verbatim>\<open>corrected_sentence\<close>, which are unbound (\<open>None\<close>) until first assigned and keep their
  value from one iteration and one paragraph to the next.
\<close>

record state =
  data :: "change_record list"
  unique_id :: int
  original_partial_var :: "string option"
  corrected_sentence_var :: "string option"

text \<open>A \<^verbatim>\<open>for\<close> loop whose body may raise: the first exception ends the loop.\<close>

fun for_each :: "('a \<Rightarrow> state \<Rightarrow> error + state) \<Rightarrow> 'a list \<Rightarrow> state \<Rightarrow> error + state" where
  "for_each body [] s = Inr s"
| "for_each body (x # xs) s =
     (case body x s of Inl e \<Rightarrow> Inl e | Inr s' \<Rightarrow> for_each body xs s')"

section \<open>The revision scanner\<close>

text \<open>\<^verbatim>\<open>el.attrib.get('w:id', str(unique_id))\<close>, with \<open>uid\<close> the value of the counter.\<close>

definition mark_id :: "int \<Rightarrow> element \<Rightarrow> string" where
  "mark_id uid el =
     (case attrib el ''w:id'' of Some v \<Rightarrow> v | None \<Rightarrow> str uid)"

definition mark_text :: "string \<Rightarrow> element \<Rightarrow> string" where
  "mark_text text_tag el = extract_text_from_runs (findall el text_tag)"

text \<open>
  The two scanning loops of a paragraph (over \<^verbatim>\<open>w:del\<close> with \<^verbatim>\<open>w:delText\<close>, over
  \<^verbatim>\<open>w:ins\<close> with \<^verbatim>\<open>w:t\<close>) differ in the tags only; \<open>marks\<close> is the list appended to.
\<close>

fun scan_marks :: "string \<Rightarrow> int \<Rightarrow> element list \<Rightarrow> mark list \<Rightarrow> mark list" where
  "scan_marks text_tag uid [] marks = marks"
| "scan_marks text_tag uid (el # els) marks =
     scan_marks text_tag uid els
       (if mark_text text_tag el \<noteq> []
        then marks @ [(mark_id uid el, mark_text text_tag el)]
        else marks)"

definition paragraph_text :: "element \<Rightarrow> string" where
  "paragraph_text paragraph = extract_text_from_runs (findall paragraph (w_tag ''t''))"

definition paragraph_deletions :: "element \<Rightarrow> int \<Rightarrow> mark list" where
  "paragraph_deletions paragraph uid =
     merge_deletions
       (scan_marks (w_tag ''delText'') uid (findall paragraph (w_tag ''del'')) [])"

definition paragraph_insertions :: "element \<Rightarrow> int \<Rightarrow> mark list" where
  "paragraph_insertions paragraph uid =
     scan_marks (w_tag ''t'') uid (findall paragraph (w_tag ''ins'')) []"

section \<open>Correlation and record assembly\<close>

text \<open>\<^verbatim>\<open>next((ins_text for ins_id, ins_text in insertions if ins_id == del_id), None)\<close>.\<close>

fun next_match :: "mark list \<Rightarrow> string \<Rightarrow> string option" where
  "next_match [] del_id = None"
| "next_match (i # rest) del_id =
     (if fst i = del_id then Some (snd i) else next_match rest del_id)"

text \<open>\<^verbatim>\<open>correction_single if correction_single else ""\<close>.\<close>

definition or_empty :: "string option \<Rightarrow> string" where
  "or_empty v = (case v of None \<Rightarrow> [] | Some t \<Rightarrow> t)"

text \<open>
  The search for the matching insertion of a deletion: the change type and
  \<^verbatim>\<open>correction_single\<close> it sets.
\<close>

definition correlate :: "mark list \<Rightarrow> string \<Rightarrow> string \<times> string option" where
  "correlate insertions del_id =
     (let matching_insert = next_match insertions del_id
      in if truthy matching_insert then (''both'', matching_insert) else (''deletion'', None))"

text \<open>The detection of a partial-word modification, which may replace the change type.\<close>

definition reclassify :: "string \<Rightarrow> string option \<Rightarrow> string \<Rightarrow> string" where
  "reclassify del_text correction change_type0 =
     (if truthy correction \<and> is_partial_word_modification del_text (or_empty correction)
      then ''partial-word modification'' else change_type0)"

text \<open>
  The body of the loop over the merged deletions.  The two context variables are
  assigned only when the deleted text is not all whitespace; reading one that was never
  assigned raises UnboundLocalError.
\<close>

definition deletion_step :: "string \<Rightarrow> mark list \<Rightarrow> mark \<Rightarrow> state \<Rightarrow> error + state" where
  "deletion_step full_text insertions d s =
     (let del_id = fst d; del_text = snd d;
          change_type0 = fst (correlate insertions del_id);
          correction = snd (correlate insertions del_id)
      in case (if strip del_text \<noteq> []
               then (case get_surrounding_text full_text del_text 5 of
                       Inl e \<Rightarrow> Inl e
                     | Inr partial \<Rightarrow>
                         Inr (s\<lparr>original_partial_var := Some partial,
                                corrected_sentence_var :=
                                  Some (replace full_text del_text (or_empty correction))\<rparr>))
               else Inr s) of
           Inl e \<Rightarrow> Inl e
         | Inr s1 \<Rightarrow>
            (let change_type1 = reclassify del_text correction change_type0
             in case original_partial_var s1 of
                  None \<Rightarrow> Inl UnboundLocalError
                | Some partial \<Rightarrow>
                   (case corrected_sentence_var s1 of
                      None \<Rightarrow> Inl UnboundLocalError
                    | Some sentence \<Rightarrow>
                       Inr (s1\<lparr>data := data s1 @
                                  [\<lparr>ID = unique_id s1,
                                    original_single = Some del_text,
                                    original_partial = partial,
                                    original_sentence = full_text,
                                    correction_single = correction,
                                    correction_partial = sentence,
                                    corrected_sentence = sentence,
                                    change_type = change_type1\<rparr>],
                               unique_id := unique_id s1 + 1\<rparr>))))"

text \<open>The body of the loop over the insertions.\<close>

definition insertion_step :: "string \<Rightarrow> mark list \<Rightarrow> mark \<Rightarrow> state \<Rightarrow> error + state" where
  "insertion_step full_text deletions i s =
     (let ins_id = fst i; ins_text = snd i
      in if \<not> list_ex (\<lambda>d. fst d = ins_id) deletions
         then (case get_surrounding_text full_text ins_text 5 of
                 Inl e \<Rightarrow> Inl e
               | Inr partial \<Rightarrow>
                  (let sentence = replace full_text ins_text ins_text
                   in Inr (s\<lparr>original_partial_var := Some partial,
                             corrected_sentence_var := Some sentence,
                             data := data s @
                               [\<lparr>ID = unique_id s,
                                 original_single = None,
                                 original_partial = partial,
                                 original_sentence = full_text,
                                 correction_single = Some ins_text,
                                 correction_partial = replace partial ins_text ins_text,
                                 corrected_sentence = sentence,
                                 change_type = ''insertion''\<rparr>],
                             unique_id := unique_id s + 1\<rparr>)))
         else Inr s)"

text \<open>The body of the loop over the paragraphs.\<close>

definition paragraph_step :: "element \<Rightarrow> state \<Rightarrow> error + state" where
  "paragraph_step paragraph s =
     (let full_text = paragraph_text paragraph;
          deletions = paragraph_deletions paragraph (unique_id s);
          insertions = paragraph_insertions paragraph (unique_id s)
      in case for_each (deletion_step full_text insertions) deletions s of
           Inl e \<Rightarrow> Inl e
         | Inr s1 \<Rightarrow> for_each (insertion_step full_text deletions) insertions s1)"

definition initial_state :: state where
  "initial_state =
     \<lparr>data = [], unique_id = 1, original_partial_var = None, corrected_sentence_var = None\<rparr>"

text \<open>\<^verbatim>\<open>extract_tracked_changes\<close> on the parsed root; the rows of the returned table.\<close>

definition extract_tracked_changes :: "element \<Rightarrow> error + change_record list" where
  "extract_tracked_changes root =
     (case for_each paragraph_step (findall root (w_tag ''p'')) initial_state of
        Inl e \<Rightarrow> Inl e
      | Inr s \<Rightarrow> Inr (data s))"

section \<open>Notions used in the statements\<close>

text \<open>What a row says about the edit: the original text, the correction and the type.\<close>

definition edit :: "change_record \<Rightarrow> string option \<times> string option \<times> string" where
  "edit r = (original_single r, correction_single r, change_type r)"

text \<open>
  Following the specification's words for the corrected sentence: only the first
  occurrence of \<open>old\<close> is replaced (Python's \<^verbatim>\<open>s.replace(old, new, 1)\<close>).
\<close>

fun replace_first :: "string \<Rightarrow> string \<Rightarrow> string \<Rightarrow> string" where
  "replace_first old new [] = (if old = [] then new else [])"
| "replace_first old new (c # cs) =
     (if startswith (c # cs) old then new @ drop (length old) (c # cs)
      else c # replace_first old new cs)"

text \<open>The shape of a row appended by the deletion loop, and by the insertion loop.\<close>

definition deletion_row :: "change_record \<Rightarrow> bool" where
  "deletion_row r =
     (case original_single r of
        None \<Rightarrow> False
      | Some t \<Rightarrow>
          t \<noteq> [] \<and> correction_single r \<noteq> Some []
          \<and> correction_partial r = corrected_sentence r
          \<and> change_type r =
              reclassify t (correction_single r)
                (if correction_single r = None then ''deletion'' else ''both'')
          \<and> (strip t = [] \<or>
               corrected_sentence r =
                 replace (original_sentence r) t (or_empty (correction_single r))))"

definition insertion_row :: "change_record \<Rightarrow> bool" where
  "insertion_row r =
     (original_single r = None \<and> truthy (correction_single r)
      \<and> correction_partial r = original_partial r
      \<and> corrected_sentence r = original_sentence r
      \<and> change_type r = ''insertion'')"

text \<open>Whether the two context variables have been assigned.\<close>

definition bound :: "state \<Rightarrow> bool" where
  "bound s = (original_partial_var s \<noteq> None \<and> corrected_sentence_var s \<noteq> None)"

text \<open>
  Builders for example documents: a run with visible text, a tracked deletion and a
  tracked insertion with the given attributes and text, a paragraph, a document.
\<close>

definition text_run :: "string \<Rightarrow> element" where
  "text_run t =
     Element (w_tag ''r'') Map.empty None [Element (w_tag ''t'') Map.empty (Some t) []]"

definition del_mark :: "(string \<rightharpoonup> string) \<Rightarrow> string \<Rightarrow> element" where
  "del_mark a t =
     Element (w_tag ''del'') a None
       [Element (w_tag ''r'') Map.empty None
          [Element (w_tag ''delText'') Map.empty (Some t) []]]"

definition ins_mark :: "(string \<rightharpoonup> string) \<Rightarrow> string \<Rightarrow> element" where
  "ins_mark a t = Element (w_tag ''ins'') a None [text_run t]"

definition para :: "element list \<Rightarrow> element" where
  "para es = Element (w_tag ''p'') Map.empty None es"

definition document :: "element list \<Rightarrow> element" where
  "document ps =
     Element (w_tag ''document'') Map.empty None
       [Element (w_tag ''body'') Map.empty None ps]"

section \<open>Properties of the deletion merger\<close>

lemma merge_loop_merged:
  "merge_loop c ds acc = acc @ merge_loop c ds []"
proof (induction ds arbitrary: c acc)
  case Nil
  show ?case by simp
next
  case (Cons d ds)
  show ?case
  proof (cases "fst c = fst d")
    case True
    then show ?thesis
      using Cons.IH [of "(fst c, snd c @ '' '' @ snd d)" acc] by simp
  next
    case False
    then show ?thesis
      using Cons.IH [of d "acc @ [c]"] Cons.IH [of d "[c]"] by simp
  qed
qed

lemma merge_deletions_Nil: "merge_deletions [] = []"
  by (simp add: merge_deletions_def)

lemma merge_deletions_single: "merge_deletions [d] = [d]"
  by (simp add: merge_deletions_def)

lemma merge_deletions_step:
  "merge_deletions (d1 # d2 # ds) =
     (if fst d1 = fst d2
      then merge_deletions ((fst d1, snd d1 @ '' '' @ snd d2) # ds)
      else d1 # merge_deletions (d2 # ds))"
  using merge_loop_merged [of d2 ds "[d1]"] by (simp add: merge_deletions_def)

lemma merge_loop_ids:
  "map fst (merge_loop c ds []) = remdups_adj (fst c # map fst ds)"
proof (induction ds arbitrary: c)
  case Nil
  show ?case by simp
next
  case (Cons d ds)
  show ?case
  proof (cases "fst c = fst d")
    case True
    then show ?thesis
      using Cons.IH [of "(fst c, snd c @ '' '' @ snd d)"] by simp
  next
    case False
    then show ?thesis
      using Cons.IH [of d] merge_loop_merged [of d ds "[c]"] by simp
  qed
qed

lemma merge_deletions_ids:
  "map fst (merge_deletions ds) = remdups_adj (map fst ds)"
  by (cases ds) (simp_all add: merge_deletions_def merge_loop_ids)

text \<open>
  C2: the deletion merger returns the empty list on the empty list and a single mark
  unchanged; on two or more marks it joins the second mark's text to the first with one
  space when their identifiers are equal and goes on with the joined mark, and otherwise
  emits the first mark and goes on from the second.  The identifiers of the output are
  those of the input in document order, each run of equal neighbours kept once.  Merging
  (1,A), (1,B), (2,C) gives (1,A B), (2,C).
\<close>

theorem merge_deletions_scan:
  "merge_deletions [] = []
   \<and> merge_deletions [d] = [d]
   \<and> merge_deletions (d1 # d2 # ds) =
       (if fst d1 = fst d2
        then merge_deletions ((fst d1, snd d1 @ '' '' @ snd d2) # ds)
        else d1 # merge_deletions (d2 # ds))
   \<and> map fst (merge_deletions ms) = remdups_adj (map fst ms)
   \<and> merge_deletions [(''1'', ''A''), (''1'', ''B''), (''2'', ''C'')]
       = [(''1'', ''A B''), (''2'', ''C'')]"
proof -
  have "merge_deletions [(''1'', ''A''), (''1'', ''B''), (''2'', ''C'')]
          = [(''1'', ''A B''), (''2'', ''C'')]"
    by (simp add: merge_deletions_def)
  then show ?thesis
    using merge_deletions_Nil merge_deletions_single [of d]
      merge_deletions_step [of d1 d2 ds] merge_deletions_ids [of ms]
    by blast
qed

theorem merge_deletions_scan_witness:
  "merge_deletions [(''7'', ''x''), (''7'', ''y''), (''7'', ''z''), (''8'', ''u''), (''7'', ''v'')]
     = merge_deletions [(''7'', ''x y''), (''7'', ''z''), (''8'', ''u''), (''7'', ''v'')]
   \<and> map fst (merge_deletions [(''7'', ''x''), (''7'', ''y''), (''7'', ''z''), (''8'', ''u''), (''7'', ''v'')])
     = [''7'', ''8'', ''7'']"
proof -
  note t = merge_deletions_scan [of "(''0'', ''q'')" "(''7'', ''x'')" "(''7'', ''y'')"
      "[(''7'', ''z''), (''8'', ''u''), (''7'', ''v'')]"
      "[(''7'', ''x''), (''7'', ''y''), (''7'', ''z''), (''8'', ''u''), (''7'', ''v'')]"]
  from t have s: "merge_deletions [(''7'', ''x''), (''7'', ''y''), (''7'', ''z''), (''8'', ''u''), (''7'', ''v'')]
     = merge_deletions [(''7'', ''x y''), (''7'', ''z''), (''8'', ''u''), (''7'', ''v'')]"
    by simp
  from t have "map fst (merge_deletions [(''7'', ''x''), (''7'', ''y''), (''7'', ''z''), (''8'', ''u''), (''7'', ''v'')])
     = remdups_adj (map fst [(''7'', ''x''), (''7'', ''y''), (''7'', ''z''), (''8'', ''u''), (''7'', ''v'')])"
    by blast
  then have i: "map fst (merge_deletions [(''7'', ''x''), (''7'', ''y''), (''7'', ''z''), (''8'', ''u''), (''7'', ''v'')])
     = [''7'', ''8'', ''7'']"
    by simp
  show ?thesis using s i by blast
qed

section \<open>Properties of the context extractor\<close>

lemma index_Inr:
  "index xs x = Inr i \<Longrightarrow> i < length xs \<and> xs ! i = x \<and> x \<notin> set (take i xs)"
proof (induction xs arbitrary: i)
  case Nil
  then show ?case by simp
next
  case (Cons y ys)
  show ?case
  proof (cases "y = x")
    case True
    with Cons.prems show ?thesis by simp
  next
    case False
    with Cons.prems obtain j where j: "index ys x = Inr j" "i = Suc j"
      by (auto split: sum.splits)
    with Cons.IH [of j] False show ?thesis by auto
  qed
qed

lemma index_Inl:
  "index xs x = Inl e \<longleftrightarrow> e = ValueError \<and> x \<notin> set xs"
proof (induction xs arbitrary: e)
  case Nil
  show ?case by auto
next
  case (Cons y ys)
  show ?case
  proof (cases "index ys x")
    case (Inl e')
    with Cons [of e'] show ?thesis by auto
  next
    case (Inr j)
    with Cons [of ValueError] show ?thesis by auto
  qed
qed

lemma dropWhile_all: "(\<forall>c\<in>set (dropWhile P s). P c) \<longleftrightarrow> dropWhile P s = []"
proof (cases "dropWhile P s")
  case Nil
  then show ?thesis by (simp del: dropWhile_eq_Nil_conv)
next
  case (Cons a as)
  then have "\<not> P a" using hd_dropWhile [of P s] by simp
  with Cons show ?thesis by (simp del: dropWhile_eq_Nil_conv)
qed

lemma strip_Nil: "strip s = [] \<longleftrightarrow> (\<forall>c\<in>set s. isspace c)"
proof -
  have "strip s = [] \<longleftrightarrow> dropWhile isspace (rev (dropWhile isspace s)) = []"
    by (simp add: strip_def)
  also have "\<dots> \<longleftrightarrow> (\<forall>c\<in>set (dropWhile isspace s). isspace c)"
    by (simp only: dropWhile_eq_Nil_conv set_rev)
  also have "\<dots> \<longleftrightarrow> dropWhile isspace s = []"
    by (rule dropWhile_all)
  also have "\<dots> \<longleftrightarrow> (\<forall>c\<in>set s. isspace c)"
    by (simp only: dropWhile_eq_Nil_conv)
  finally show ?thesis .
qed

lemma split_from_Nil: "split_from s w = [] \<longleftrightarrow> w = [] \<and> (\<forall>c\<in>set s. isspace c)"
  by (induction s arbitrary: w) auto

lemma split_Nil: "split s = [] \<longleftrightarrow> strip s = []"
  by (simp add: split_def split_from_Nil strip_Nil)

lemma getitem_0: "getitem (x # xs) 0 = Inr x"
  by (simp add: getitem_def)

lemma slice_nonneg:
  "0 \<le> lo \<Longrightarrow> 0 \<le> hi \<Longrightarrow> hi \<le> int (length xs) \<Longrightarrow>
     slice xs lo hi = take (nat hi - nat lo) (drop (nat lo) xs)"
  by (auto simp: slice_def Let_def min_def nat_diff_distrib')

lemma get_surrounding_text_cases:
  "get_surrounding_text txt target window =
     (if strip target = [] then Inr txt
      else case split target of
             [] \<Rightarrow> Inr txt
           | w0 # ws \<Rightarrow>
              (case index (split txt) w0 of
                 Inl e \<Rightarrow> Inr txt
               | Inr i \<Rightarrow>
                  Inr (concat (slice (split txt) (max 0 (int i - window))
                     (min (int (length (split txt)))
                        (int i + window + int (length (split target))))))))"
proof (cases "split target")
  case Nil
  then show ?thesis by (simp add: get_surrounding_text_def)
next
  case (Cons w0 ws)
  show ?thesis
  proof (cases "index (split txt) w0")
    case (Inl e)
    then have "e = ValueError" by (simp add: index_Inl)
    with Inl Cons show ?thesis
      by (simp add: get_surrounding_text_def getitem_0)
  next
    case (Inr i)
    with Cons show ?thesis
      by (simp add: get_surrounding_text_def getitem_0 Let_def)
  qed
qed

lemma get_surrounding_text_total: "\<exists>r. get_surrounding_text txt target window = Inr r"
  by (simp add: get_surrounding_text_cases split: list.split sum.split)

lemma get_surrounding_text_blank:
  "\<forall>c\<in>set target. isspace c \<Longrightarrow> get_surrounding_text txt target window = Inr txt"
  by (simp add: get_surrounding_text_cases strip_Nil)

lemma get_surrounding_text_absent:
  assumes "split target = w0 # ws" and "w0 \<notin> set (split txt)"
  shows "get_surrounding_text txt target window = Inr txt"
proof -
  have "index (split txt) w0 = Inl ValueError"
    using assms(2) by (simp add: index_Inl)
  with assms(1) show ?thesis
    by (simp add: get_surrounding_text_cases)
qed

lemma get_surrounding_text_found:
  assumes t: "split target = w0 # ws"
    and i: "index (split txt) w0 = Inr i"
    and w: "0 \<le> window"
  shows "get_surrounding_text txt target window =
           Inr (concat (take (min (length (split txt)) (i + nat window + Suc (length ws)) - (i - nat window))
                  (drop (i - nat window) (split txt))))"
proof -
  have ne: "strip target \<noteq> []"
    using t split_Nil [of target] by simp
  let ?n = "length (split txt)"
  let ?lo = "max 0 (int i - window)"
  let ?hi = "min (int ?n) (int i + window + int (Suc (length ws)))"
  have lo: "nat ?lo = i - nat window" using w by auto
  have hi: "nat ?hi = min ?n (i + nat window + Suc (length ws))" using w by auto
  have "slice (split txt) ?lo ?hi = take (nat ?hi - nat ?lo) (drop (nat ?lo) (split txt))"
    using w by (intro slice_nonneg) auto
  then show ?thesis
    using ne t i lo hi by (simp add: get_surrounding_text_cases)
qed

text \<open>
  C9: the context extractor never raises.  When the target is empty or all whitespace
  (exactly when it has no words), or when its first word is not among the words of the
  text, it returns the text unchanged.  Otherwise, with \<open>i\<close> the first position of the
  target's first word among the words of the text and a window that is not negative, it
  returns the words from position \<open>i - window\<close> (not below the first word) up to but not
  including position \<open>i + window + number of target words\<close> (not beyond the last word),
  joined without a separator.  On \<open>The quick brown fox jumps\<close> with target \<open>brown\<close> and
  window 1 these words are \<open>quick\<close>, \<open>brown\<close>, \<open>fox\<close>.
\<close>

theorem get_surrounding_text_window:
  "(\<exists>r. get_surrounding_text txt target window = Inr r)
   \<and> ((\<forall>c\<in>set target. isspace c) \<longleftrightarrow> split target = [])
   \<and> ((\<forall>c\<in>set target. isspace c) \<longrightarrow> get_surrounding_text txt target window = Inr txt)
   \<and> (split target = w0 # ws \<and> w0 \<notin> set (split txt)
        \<longrightarrow> get_surrounding_text txt target window = Inr txt)
   \<and> (split target = w0 # ws \<and> index (split txt) w0 = Inr i \<and> 0 \<le> window
        \<longrightarrow> split txt ! i = w0 \<and> w0 \<notin> set (take i (split txt))
            \<and> i - nat window \<le> i
            \<and> i < min (length (split txt)) (i + nat window + Suc (length ws))
            \<and> min (length (split txt)) (i + nat window + Suc (length ws)) \<le> length (split txt)
            \<and> get_surrounding_text txt target window =
                 Inr (concat (take (min (length (split txt)) (i + nat window + Suc (length ws))
                                      - (i - nat window))
                          (drop (i - nat window) (split txt)))))
   \<and> get_surrounding_text ''The quick brown fox jumps'' ''brown'' 1
        = Inr (concat [''quick'', ''brown'', ''fox''])"
proof -
  have a: "\<exists>r. get_surrounding_text txt target window = Inr r"
    by (rule get_surrounding_text_total)
  have b: "(\<forall>c\<in>set target. isspace c) \<longleftrightarrow> split target = []"
    by (simp add: split_Nil strip_Nil)
  have c: "(\<forall>c\<in>set target. isspace c) \<longrightarrow> get_surrounding_text txt target window = Inr txt"
    by (simp add: get_surrounding_text_blank)
  have d: "split target = w0 # ws \<and> w0 \<notin> set (split txt)
        \<longrightarrow> get_surrounding_text txt target window = Inr txt"
    by (simp add: get_surrounding_text_absent)
  have e: "split target = w0 # ws \<and> index (split txt) w0 = Inr i \<and> 0 \<le> window
        \<longrightarrow> split txt ! i = w0 \<and> w0 \<notin> set (take i (split txt))
            \<and> i - nat window \<le> i
            \<and> i < min (length (split txt)) (i + nat window + Suc (length ws))
            \<and> min (length (split txt)) (i + nat window + Suc (length ws)) \<le> length (split txt)
            \<and> get_surrounding_text txt target window =
                 Inr (concat (take (min (length (split txt)) (i + nat window + Suc (length ws))
                                      - (i - nat window))
                          (drop (i - nat window) (split txt))))"
  proof (intro impI, elim conjE)
    assume t: "split target = w0 # ws" and i: "index (split txt) w0 = Inr i"
      and w: "0 \<le> window"
    from index_Inr [OF i] get_surrounding_text_found [OF t i w]
    show "split txt ! i = w0 \<and> w0 \<notin> set (take i (split txt))
            \<and> i - nat window \<le> i
            \<and> i < min (length (split txt)) (i + nat window + Suc (length ws))
            \<and> min (length (split txt)) (i + nat window + Suc (length ws)) \<le> length (split txt)
            \<and> get_surrounding_text txt target window =
                 Inr (concat (take (min (length (split txt)) (i + nat window + Suc (length ws))
                                      - (i - nat window))
                          (drop (i - nat window) (split txt))))"
      by simp
  qed
  have f: "get_surrounding_text ''The quick brown fox jumps'' ''brown'' 1
        = Inr (concat [''quick'', ''brown'', ''fox''])"
    by code_simp
  from a b c d e f show ?thesis by blast
qed

theorem get_surrounding_text_window_witness:
  "isspace CHR '' ''
   \<and> get_surrounding_text ''The quick brown fox jumps'' '' '' 1 = Inr ''The quick brown fox jumps''
   \<and> split ''lazy dog'' = [''lazy'', ''dog'']
   \<and> ''lazy'' \<notin> set (split ''The quick brown fox jumps'')
   \<and> get_surrounding_text ''The quick brown fox jumps'' ''lazy dog'' 1 = Inr ''The quick brown fox jumps''
   \<and> split ''quick brown'' = [''quick'', ''brown'']
   \<and> index (split ''The quick brown fox jumps'') ''quick'' = Inr 1
   \<and> get_surrounding_text ''The quick brown fox jumps'' ''quick brown'' 1 = Inr ''Thequickbrownfox''"
proof -
  have h1: "\<forall>c\<in>set '' ''. isspace c" by (simp add: isspace_def)
  have h2: "split ''lazy dog'' = [''lazy'', ''dog'']" by code_simp
  have h3: "''lazy'' \<notin> set (split ''The quick brown fox jumps'')" by code_simp
  have h4: "split ''quick brown'' = [''quick'', ''brown'']" by code_simp
  have h5: "index (split ''The quick brown fox jumps'') ''quick'' = Inr 1" by code_simp
  have h6: "(0::int) \<le> 1" by simp
  have v: "concat (take (min (length (split ''The quick brown fox jumps''))
                        (1 + nat 1 + Suc (length [''brown''])) - (1 - nat 1))
             (drop (1 - nat 1) (split ''The quick brown fox jumps''))) = ''Thequickbrownfox''"
    by code_simp
  have r1: "get_surrounding_text ''The quick brown fox jumps'' '' '' 1
              = Inr ''The quick brown fox jumps''"
    using get_surrounding_text_window
      [of "''The quick brown fox jumps''" "'' ''" 1 "''x''" "[]" 0] h1 by blast
  have r2: "get_surrounding_text ''The quick brown fox jumps'' ''lazy dog'' 1
              = Inr ''The quick brown fox jumps''"
    using get_surrounding_text_window
      [of "''The quick brown fox jumps''" "''lazy dog''" 1 "''lazy''" "[''dog'']" 0] h2 h3
    by blast
  have r3: "get_surrounding_text ''The quick brown fox jumps'' ''quick brown'' 1
              = Inr ''Thequickbrownfox''"
    using get_surrounding_text_window
      [of "''The quick brown fox jumps''" "''quick brown''" 1 "''quick''" "[''brown'']" 1]
      h4 h5 h6 v
    by (simp only:)
  have h0: "isspace CHR '' ''" by (simp add: isspace_def)
  from h0 r1 h2 h3 r2 h4 h5 r3 show ?thesis by (intro conjI)
qed

section \<open>Properties of the loops and their steps\<close>

subsection \<open>Loops\<close>

lemma for_each_invariant:
  assumes "for_each body xs s = Inr s'" and "I s"
    and "\<And>x t t'. x \<in> set xs \<Longrightarrow> I t \<Longrightarrow> body x t = Inr t' \<Longrightarrow> I t'"
  shows "I s'"
  using assms
proof (induction xs arbitrary: s)
  case Nil
  then show ?case by simp
next
  case (Cons x xs)
  from Cons.prems(1) obtain t where t: "body x s = Inr t" "for_each body xs t = Inr s'"
    by (auto split: sum.splits)
  have "I t" using Cons.prems(3) [of x s t] Cons.prems(2) t(1) by simp
  moreover have "\<And>y u u'. y \<in> set xs \<Longrightarrow> I u \<Longrightarrow> body y u = Inr u' \<Longrightarrow> I u'"
    using Cons.prems(3) by (meson list.set_intros(2))
  ultimately show ?case
    using Cons.IH [OF t(2)] by blast
qed

lemma for_each_appends:
  assumes "for_each body xs s = Inr s'"
    and "\<And>x t t'. x \<in> set xs \<Longrightarrow> body x t = Inr t' \<Longrightarrow> f t' = f t @ g x"
  shows "f s' = f s @ concat (map g xs)"
  using assms
proof (induction xs arbitrary: s)
  case Nil
  then show ?case by simp
next
  case (Cons x xs)
  from Cons.prems(1) obtain t where t: "body x s = Inr t" "for_each body xs t = Inr s'"
    by (auto split: sum.splits)
  have "f t = f s @ g x" using Cons.prems(2) [of x s t] t(1) by simp
  moreover have "\<And>y u u'. y \<in> set xs \<Longrightarrow> body y u = Inr u' \<Longrightarrow> f u' = f u @ g y"
    using Cons.prems(2) by (meson list.set_intros(2))
  then have "f s' = f t @ concat (map g xs)"
    using Cons.IH [OF t(2)] by blast
  ultimately show ?case by simp
qed

lemma for_each_total:
  assumes "I s"
    and "\<And>x t. x \<in> set xs \<Longrightarrow> I t \<Longrightarrow> \<exists>t'. body x t = Inr t' \<and> I t'"
  shows "\<exists>s'. for_each body xs s = Inr s'"
  using assms
proof (induction xs arbitrary: s)
  case Nil
  then show ?case by simp
next
  case (Cons x xs)
  from Cons.prems(2) [of x s] Cons.prems(1)
  obtain t where t: "body x s = Inr t" "I t" by auto
  have "\<And>y u. y \<in> set xs \<Longrightarrow> I u \<Longrightarrow> \<exists>u'. body y u = Inr u' \<and> I u'"
    using Cons.prems(2) by (meson list.set_intros(2))
  with Cons.IH [OF t(2)] obtain s' where "for_each body xs t = Inr s'"
    by blast
  with t(1) show ?case by simp
qed

subsection \<open>One step of each loop\<close>

lemma deletion_step_Inr:
  assumes "deletion_step ft inss d s = Inr s'"
  shows "\<exists>partial sentence.
           (if strip (snd d) \<noteq> []
            then get_surrounding_text ft (snd d) 5 = Inr partial
                 \<and> sentence = replace ft (snd d) (or_empty (snd (correlate inss (fst d))))
            else original_partial_var s = Some partial
                 \<and> corrected_sentence_var s = Some sentence)
           \<and> s' = \<lparr>data = data s @
                        [\<lparr>ID = unique_id s,
                          original_single = Some (snd d),
                          original_partial = partial,
                          original_sentence = ft,
                          correction_single = snd (correlate inss (fst d)),
                          correction_partial = sentence,
                          corrected_sentence = sentence,
                          change_type = reclassify (snd d) (snd (correlate inss (fst d)))
                                          (fst (correlate inss (fst d)))\<rparr>],
                    unique_id = unique_id s + 1,
                    original_partial_var = Some partial,
                    corrected_sentence_var = Some sentence\<rparr>"
proof (cases "strip (snd d) = []")
  case True
  with assms show ?thesis
    by (auto simp: deletion_step_def Let_def split: option.splits)
next
  case False
  obtain partial where p: "get_surrounding_text ft (snd d) 5 = Inr partial"
    using get_surrounding_text_total by blast
  with False assms show ?thesis
    by (auto simp: deletion_step_def Let_def)
qed

lemma deletion_step_total:
  assumes "strip (snd d) \<noteq> [] \<or> bound s"
  shows "\<exists>s'. deletion_step ft inss d s = Inr s' \<and> bound s'"
proof (cases "strip (snd d) = []")
  case True
  with assms have "bound s" by simp
  then obtain p c where "original_partial_var s = Some p" "corrected_sentence_var s = Some c"
    by (auto simp: bound_def)
  with True show ?thesis
    by (simp add: deletion_step_def Let_def bound_def)
next
  case False
  obtain partial where p: "get_surrounding_text ft (snd d) 5 = Inr partial"
    using get_surrounding_text_total by blast
  with False show ?thesis
    by (simp add: deletion_step_def Let_def bound_def)
qed

lemma insertion_step_Inr:
  assumes "insertion_step ft dels i s = Inr s'"
  shows "if list_ex (\<lambda>d. fst d = fst i) dels then s' = s
         else \<exists>partial. get_surrounding_text ft (snd i) 5 = Inr partial
           \<and> s' = \<lparr>data = data s @
                        [\<lparr>ID = unique_id s,
                          original_single = None,
                          original_partial = partial,
                          original_sentence = ft,
                          correction_single = Some (snd i),
                          correction_partial = replace partial (snd i) (snd i),
                          corrected_sentence = replace ft (snd i) (snd i),
                          change_type = ''insertion''\<rparr>],
                    unique_id = unique_id s + 1,
                    original_partial_var = Some partial,
                    corrected_sentence_var = Some (replace ft (snd i) (snd i))\<rparr>"
proof (cases "list_ex (\<lambda>d. fst d = fst i) dels")
  case True
  with assms show ?thesis by (simp add: insertion_step_def Let_def)
next
  case False
  obtain partial where p: "get_surrounding_text ft (snd i) 5 = Inr partial"
    using get_surrounding_text_total by blast
  with False assms show ?thesis
    by (auto simp: insertion_step_def Let_def)
qed

lemma insertion_step_total:
  "\<exists>s'. insertion_step ft dels i s = Inr s' \<and> (bound s \<longrightarrow> bound s')"
proof -
  obtain partial where p: "get_surrounding_text ft (snd i) 5 = Inr partial"
    using get_surrounding_text_total by blast
  then show ?thesis
    by (simp add: insertion_step_def Let_def bound_def)
qed

section \<open>Properties of replacement, scanner and rows\<close>

subsection \<open>Replacement\<close>

lemma replace_from_same_aux:
  "new = old \<Longrightarrow> old \<noteq> [] \<Longrightarrow> replace_from old new s = s"
proof (induction old new s rule: replace_from.induct)
  case (1 old new)
  show ?case by simp
next
  case (2 old new c cs)
  show ?case
  proof (cases "startswith (c # cs) old")
    case True
    then have t: "take (length old) (c # cs) = old" by (simp add: startswith_def)
    from "2.prems" obtain n where n: "length old = Suc n" by (cases old) auto
    have "old @ drop (length old - 1) cs = take (length old) (c # cs) @ drop (length old) (c # cs)"
      using t n by simp
    then have "old @ drop (length old - 1) cs = c # cs" by simp
    with True "2.IH"(1) "2.prems" show ?thesis by simp
  next
    case False
    with "2.IH"(2) "2.prems" show ?thesis by simp
  qed
qed

lemma replace_from_same: "old \<noteq> [] \<Longrightarrow> replace_from old old s = s"
  by (simp add: replace_from_same_aux)

lemma concat_singletons: "concat (map (\<lambda>c. [c]) s) = s"
  by (induction s) auto

lemma replace_same: "replace s x x = s"
  by (simp add: replace_def replace_from_same concat_singletons)

subsection \<open>The scanner\<close>

lemma scan_marks_filter:
  "scan_marks text_tag uid els marks =
     marks @ map (\<lambda>el. (mark_id uid el, mark_text text_tag el))
               (filter (\<lambda>el. mark_text text_tag el \<noteq> []) els)"
  by (induction els arbitrary: marks) auto

lemma scan_marks_nonempty: "m \<in> set (scan_marks text_tag uid els []) \<Longrightarrow> snd m \<noteq> []"
  by (auto simp: scan_marks_filter)

lemma merge_loop_nonempty:
  assumes "snd c \<noteq> []" and "\<forall>m\<in>set ds. snd m \<noteq> []" and "\<forall>m\<in>set acc. snd m \<noteq> []"
  shows "\<forall>m\<in>set (merge_loop c ds acc). snd m \<noteq> []"
  using assms
proof (induction ds arbitrary: c acc)
  case Nil
  then show ?case by simp
next
  case (Cons d ds)
  show ?case
  proof (cases "fst c = fst d")
    case True
    then show ?thesis
      using Cons.IH [of "(fst c, snd c @ '' '' @ snd d)" acc] Cons.prems by simp
  next
    case False
    then show ?thesis
      using Cons.IH [of d "acc @ [c]"] Cons.prems by simp
  qed
qed

lemma merge_deletions_nonempty:
  "\<forall>m\<in>set ds. snd m \<noteq> [] \<Longrightarrow> m \<in> set (merge_deletions ds) \<Longrightarrow> snd m \<noteq> []"
  using merge_loop_nonempty [of "hd ds" "tl ds" "[]"]
  by (cases ds) (auto simp: merge_deletions_def)

lemma paragraph_deletions_nonempty:
  "m \<in> set (paragraph_deletions p uid) \<Longrightarrow> snd m \<noteq> []"
  unfolding paragraph_deletions_def
  by (rule merge_deletions_nonempty [rotated]) (auto dest: scan_marks_nonempty)

lemma paragraph_insertions_nonempty:
  "m \<in> set (paragraph_insertions p uid) \<Longrightarrow> snd m \<noteq> []"
  unfolding paragraph_insertions_def by (rule scan_marks_nonempty)

subsection \<open>Correlation\<close>

lemma next_match_find:
  "next_match inss del_id = map_option snd (find (\<lambda>i. fst i = del_id) inss)"
  by (induction inss) auto

lemma next_match_None: "next_match inss del_id = None \<longleftrightarrow> del_id \<notin> set (map fst inss)"
  by (induction inss) auto

lemma next_match_nonempty:
  "\<forall>i\<in>set inss. snd i \<noteq> [] \<Longrightarrow> next_match inss del_id \<noteq> Some []"
  by (induction inss) auto

lemma correlate_nonempty:
  assumes "\<forall>i\<in>set inss. snd i \<noteq> []"
  shows "correlate inss del_id =
           (if next_match inss del_id = None then ''deletion'' else ''both'',
            next_match inss del_id)"
proof (cases "next_match inss del_id")
  case None
  then show ?thesis by (simp add: correlate_def truthy_def)
next
  case (Some t)
  with next_match_nonempty [OF assms, of del_id] have "t \<noteq> []" by auto
  with Some show ?thesis by (simp add: correlate_def truthy_def)
qed

subsection \<open>The rows\<close>

lemma deletion_step_row:
  assumes "deletion_step ft inss d s = Inr s'"
    and "snd d \<noteq> []" and "\<forall>i\<in>set inss. snd i \<noteq> []"
  shows "\<exists>r. data s' = data s @ [r] \<and> deletion_row r"
proof -
  from deletion_step_Inr [OF assms(1)] obtain partial sentence where
    c: "strip (snd d) \<noteq> [] \<longrightarrow>
          sentence = replace ft (snd d) (or_empty (snd (correlate inss (fst d))))"
    and s': "s' = \<lparr>data = data s @
                        [\<lparr>ID = unique_id s,
                          original_single = Some (snd d),
                          original_partial = partial,
                          original_sentence = ft,
                          correction_single = snd (correlate inss (fst d)),
                          correction_partial = sentence,
                          corrected_sentence = sentence,
                          change_type = reclassify (snd d) (snd (correlate inss (fst d)))
                                          (fst (correlate inss (fst d)))\<rparr>],
                    unique_id = unique_id s + 1,
                    original_partial_var = Some partial,
                    corrected_sentence_var = Some sentence\<rparr>"
    by (auto split: if_splits)
  have "deletion_row \<lparr>ID = unique_id s,
                          original_single = Some (snd d),
                          original_partial = partial,
                          original_sentence = ft,
                          correction_single = snd (correlate inss (fst d)),
                          correction_partial = sentence,
                          corrected_sentence = sentence,
                          change_type = reclassify (snd d) (snd (correlate inss (fst d)))
                                          (fst (correlate inss (fst d)))\<rparr>"
    using c assms(2) next_match_nonempty [OF assms(3), of "fst d"]
    by (auto simp: deletion_row_def correlate_nonempty [OF assms(3)])
  with s' show ?thesis by simp
qed

lemma insertion_step_row:
  assumes "insertion_step ft dels i s = Inr s'" and "snd i \<noteq> []"
  shows "data s' = data s \<or> (\<exists>r. data s' = data s @ [r] \<and> insertion_row r)"
  using insertion_step_Inr [OF assms(1)] assms(2)
  by (auto simp: insertion_row_def truthy_def replace_same split: if_splits)

lemma paragraph_step_rows:
  assumes "paragraph_step p s = Inr s'"
    and "\<forall>r\<in>set (data s). deletion_row r \<or> insertion_row r"
  shows "\<forall>r\<in>set (data s'). deletion_row r \<or> insertion_row r"
proof -
  let ?I = "\<lambda>t. \<forall>r\<in>set (data t). deletion_row r \<or> insertion_row r"
  let ?ft = "paragraph_text p"
  let ?dels = "paragraph_deletions p (unique_id s)"
  let ?inss = "paragraph_insertions p (unique_id s)"
  from assms(1) obtain s1 where
    d: "for_each (deletion_step ?ft ?inss) ?dels s = Inr s1"
    and i: "for_each (insertion_step ?ft ?dels) ?inss s1 = Inr s'"
    by (auto simp: paragraph_step_def Let_def split: sum.splits)
  have n: "\<forall>i\<in>set ?inss. snd i \<noteq> []"
    using paragraph_insertions_nonempty by blast
  have "?I s1"
  proof (rule for_each_invariant [OF d, where I = ?I])
    show "?I s" by (rule assms(2))
  next
    fix x t t'
    assume "x \<in> set ?dels" and t: "?I t" and "deletion_step ?ft ?inss x t = Inr t'"
    with deletion_step_row [of ?ft ?inss x t t'] n paragraph_deletions_nonempty [of x p]
    obtain r where "data t' = data t @ [r]" "deletion_row r" by blast
    with t show "?I t'" by auto
  qed
  show ?thesis
  proof (rule for_each_invariant [OF i, where I = ?I])
    show "?I s1" by fact
  next
    fix x t t'
    assume "x \<in> set ?inss" and t: "?I t" and "insertion_step ?ft ?dels x t = Inr t'"
    with insertion_step_row [of ?ft ?dels x t t'] n
    have "data t' = data t \<or> (\<exists>r. data t' = data t @ [r] \<and> insertion_row r)" by blast
    with t show "?I t'" by auto
  qed
qed

lemma extract_tracked_changes_rows:
  assumes "extract_tracked_changes root = Inr recs" and "r \<in> set recs"
  shows "deletion_row r \<or> insertion_row r"
proof -
  let ?I = "\<lambda>t. \<forall>r\<in>set (data t). deletion_row r \<or> insertion_row r"
  from assms(1) obtain s where
    s: "for_each paragraph_step (findall root (w_tag ''p'')) initial_state = Inr s"
    and recs: "recs = data s"
    by (auto simp: extract_tracked_changes_def split: sum.splits)
  have "?I s"
  proof (rule for_each_invariant [OF s, where I = ?I])
    show "?I initial_state" by (simp add: initial_state_def)
  next
    fix x t t'
    assume "?I t" and "paragraph_step x t = Inr t'"
    then show "?I t'" using paragraph_step_rows by blast
  qed
  with recs assms(2) show ?thesis by blast
qed

subsection \<open>Which edits a paragraph yields\<close>

lemma deletion_step_edit:
  assumes "deletion_step ft inss d s = Inr s'"
  shows "map edit (data s') = map edit (data s) @
           [(Some (snd d), snd (correlate inss (fst d)),
             reclassify (snd d) (snd (correlate inss (fst d))) (fst (correlate inss (fst d))))]"
  using deletion_step_Inr [OF assms] by (auto simp: edit_def)

lemma insertion_step_edit:
  assumes "insertion_step ft dels i s = Inr s'"
  shows "map edit (data s') = map edit (data s) @
           (if list_ex (\<lambda>d. fst d = fst i) dels then []
            else [(None, Some (snd i), ''insertion'')])"
  using insertion_step_Inr [OF assms] by (auto simp: edit_def split: if_splits)

lemma concat_map_single: "concat (map (\<lambda>x. [h x]) xs) = map h xs"
  by (induction xs) auto

lemma concat_map_if:
  "concat (map (\<lambda>x. if c x then [] else [h x]) xs) = map h (filter (\<lambda>x. \<not> c x) xs)"
  by (induction xs) auto

lemma deletion_edit_find:
  assumes "\<forall>i\<in>set inss. snd i \<noteq> []"
  shows "(Some (snd d), snd (correlate inss (fst d)),
          reclassify (snd d) (snd (correlate inss (fst d))) (fst (correlate inss (fst d))))
         = (case find (\<lambda>i. fst i = fst d) inss of
              None \<Rightarrow> (Some (snd d), None, ''deletion'')
            | Some i \<Rightarrow> (Some (snd d), Some (snd i),
                 if is_partial_word_modification (snd d) (snd i)
                 then ''partial-word modification'' else ''both''))"
proof (cases "find (\<lambda>i. fst i = fst d) inss")
  case None
  then have "next_match inss (fst d) = None" by (simp add: next_match_find)
  with None show ?thesis
    by (simp add: correlate_nonempty [OF assms] reclassify_def truthy_def)
next
  case (Some i)
  then have n: "next_match inss (fst d) = Some (snd i)" by (simp add: next_match_find)
  with next_match_nonempty [OF assms, of "fst d"] have "snd i \<noteq> []" by auto
  with Some n show ?thesis
    by (simp add: correlate_nonempty [OF assms] reclassify_def truthy_def or_empty_def)
qed

lemma paragraph_step_edits:
  assumes "paragraph_step p s = Inr s'"
  shows "map edit (data s') = map edit (data s)
     @ map (\<lambda>d. case find (\<lambda>i. fst i = fst d) (paragraph_insertions p (unique_id s)) of
                  None \<Rightarrow> (Some (snd d), None, ''deletion'')
                | Some i \<Rightarrow> (Some (snd d), Some (snd i),
                     if is_partial_word_modification (snd d) (snd i)
                     then ''partial-word modification'' else ''both''))
         (paragraph_deletions p (unique_id s))
     @ map (\<lambda>i. (None, Some (snd i), ''insertion''))
         (filter (\<lambda>i. fst i \<notin> set (map fst (paragraph_deletions p (unique_id s))))
            (paragraph_insertions p (unique_id s)))"
proof -
  let ?ft = "paragraph_text p"
  let ?dels = "paragraph_deletions p (unique_id s)"
  let ?inss = "paragraph_insertions p (unique_id s)"
  let ?f = "\<lambda>t. map edit (data t)"
  from assms obtain s1 where
    d: "for_each (deletion_step ?ft ?inss) ?dels s = Inr s1"
    and i: "for_each (insertion_step ?ft ?dels) ?inss s1 = Inr s'"
    by (auto simp: paragraph_step_def Let_def split: sum.splits)
  have n: "\<forall>i\<in>set ?inss. snd i \<noteq> []"
    using paragraph_insertions_nonempty by blast
  have "?f s1 = ?f s @ concat (map (\<lambda>d. [case find (\<lambda>i. fst i = fst d) ?inss of
                  None \<Rightarrow> (Some (snd d), None, ''deletion'')
                | Some i \<Rightarrow> (Some (snd d), Some (snd i),
                     if is_partial_word_modification (snd d) (snd i)
                     then ''partial-word modification'' else ''both'')]) ?dels)"
    by (rule for_each_appends [OF d]) (simp add: deletion_step_edit deletion_edit_find [OF n])
  then have a: "?f s1 = ?f s @ map (\<lambda>d. case find (\<lambda>i. fst i = fst d) ?inss of
                  None \<Rightarrow> (Some (snd d), None, ''deletion'')
                | Some i \<Rightarrow> (Some (snd d), Some (snd i),
                     if is_partial_word_modification (snd d) (snd i)
                     then ''partial-word modification'' else ''both'')) ?dels"
    by (simp only: concat_map_single)
  have "?f s' = ?f s1 @ concat (map (\<lambda>i. if list_ex (\<lambda>d. fst d = fst i) ?dels then []
            else [(None, Some (snd i), ''insertion'')]) ?inss)"
    by (rule for_each_appends [OF i]) (simp add: insertion_step_edit)
  then have b: "?f s' = ?f s1 @ map (\<lambda>i. (None, Some (snd i), ''insertion''))
                  (filter (\<lambda>i. \<not> list_ex (\<lambda>d. fst d = fst i) ?dels) ?inss)"
    by (simp only: concat_map_if)
  have c: "(\<lambda>i. \<not> list_ex (\<lambda>d. fst d = fst i) ?dels) = (\<lambda>i. fst i \<notin> set (map fst ?dels))"
    by (intro ext) (force simp: list_ex_iff)
  from b have "?f s' = ?f s1 @ map (\<lambda>i. (None, Some (snd i), ''insertion''))
                  (filter (\<lambda>i. fst i \<notin> set (map fst ?dels)) ?inss)"
    by (simp only: c)
  with a show ?thesis by (simp only: append_assoc)
qed

lemma paragraph_step_total:
  assumes "bound s \<or> (\<forall>d\<in>set (paragraph_deletions p (unique_id s)). strip (snd d) \<noteq> [])"
  shows "\<exists>s'. paragraph_step p s = Inr s'"
proof -
  let ?ft = "paragraph_text p"
  let ?dels = "paragraph_deletions p (unique_id s)"
  let ?inss = "paragraph_insertions p (unique_id s)"
  let ?I = "\<lambda>t. bound t \<or> (\<forall>d\<in>set ?dels. strip (snd d) \<noteq> [])"
  have "\<exists>s1. for_each (deletion_step ?ft ?inss) ?dels s = Inr s1"
  proof (rule for_each_total [where I = ?I])
    show "?I s" by (rule assms)
  next
    fix x t
    assume "x \<in> set ?dels" and "?I t"
    then have "strip (snd x) \<noteq> [] \<or> bound t" by blast
    from deletion_step_total [OF this, of ?ft ?inss]
    show "\<exists>t'. deletion_step ?ft ?inss x t = Inr t' \<and> ?I t'" by blast
  qed
  then obtain s1 where d: "for_each (deletion_step ?ft ?inss) ?dels s = Inr s1" ..
  have "\<exists>s'. for_each (insertion_step ?ft ?dels) ?inss s1 = Inr s'"
  proof (rule for_each_total [where I = "\<lambda>_. True"])
    show True ..
  next
    fix x t
    from insertion_step_total [of ?ft ?dels x t]
    show "\<exists>t'. insertion_step ?ft ?dels x t = Inr t' \<and> True" by blast
  qed
  with d show ?thesis by (simp add: paragraph_step_def Let_def)
qed

text \<open>
  C1: a paragraph whose merged deletions all have some non-whitespace text (or that is
  processed after the context variables were assigned) is processed without an exception.
  Whenever a paragraph is processed, the rows it appends are, in this order: one row per
  merged deletion, which is a replacement carrying the text of the first insertion with
  the same identifier when there is one (type both or partial-word modification) and a
  pure deletion with no correction otherwise; then exactly one row of type insertion per
  insertion whose identifier is the identifier of no merged deletion.  An insertion that
  matched stays in the list and matches every deletion with its identifier.
\<close>

theorem paragraph_correlation:
  "((bound s \<or> (\<forall>d\<in>set (paragraph_deletions p (unique_id s)). strip (snd d) \<noteq> []))
      \<longrightarrow> (\<exists>t. paragraph_step p s = Inr t))
   \<and> (paragraph_step p s = Inr s' \<longrightarrow>
        map edit (data s') = map edit (data s)
          @ map (\<lambda>d. case find (\<lambda>i. fst i = fst d) (paragraph_insertions p (unique_id s)) of
                       None \<Rightarrow> (Some (snd d), None, ''deletion'')
                     | Some i \<Rightarrow> (Some (snd d), Some (snd i),
                          if is_partial_word_modification (snd d) (snd i)
                          then ''partial-word modification'' else ''both''))
              (paragraph_deletions p (unique_id s))
          @ map (\<lambda>i. (None, Some (snd i), ''insertion''))
              (filter (\<lambda>i. fst i \<notin> set (map fst (paragraph_deletions p (unique_id s))))
                 (paragraph_insertions p (unique_id s))))"
  using paragraph_step_total [of s p] paragraph_step_edits [of p s s'] by blast

theorem paragraph_correlation_witness:
  "paragraph_deletions
      (para [del_mark [''w:id'' \<mapsto> ''5''] ''testing'', ins_mark [''w:id'' \<mapsto> ''5''] ''test'',
             del_mark [''w:id'' \<mapsto> ''6''] ''very'', del_mark [''w:id'' \<mapsto> ''5''] ''old'',
             ins_mark [''w:id'' \<mapsto> ''9''] ''newly'', ins_mark [''w:id'' \<mapsto> ''5''] ''late''])
      (unique_id initial_state)
     = [(''5'', ''testing''), (''6'', ''very''), (''5'', ''old'')]
   \<and> (\<exists>s'. paragraph_step
      (para [del_mark [''w:id'' \<mapsto> ''5''] ''testing'', ins_mark [''w:id'' \<mapsto> ''5''] ''test'',
             del_mark [''w:id'' \<mapsto> ''6''] ''very'', del_mark [''w:id'' \<mapsto> ''5''] ''old'',
             ins_mark [''w:id'' \<mapsto> ''9''] ''newly'', ins_mark [''w:id'' \<mapsto> ''5''] ''late''])
      initial_state = Inr s'
     \<and> map edit (data s') =
         [(Some ''testing'', Some ''test'', ''partial-word modification''),
          (Some ''very'', None, ''deletion''),
          (Some ''old'', Some ''test'', ''both''),
          (None, Some ''newly'', ''insertion'')])"
proof -
  let ?p = "para [del_mark [''w:id'' \<mapsto> ''5''] ''testing'', ins_mark [''w:id'' \<mapsto> ''5''] ''test'',
             del_mark [''w:id'' \<mapsto> ''6''] ''very'', del_mark [''w:id'' \<mapsto> ''5''] ''old'',
             ins_mark [''w:id'' \<mapsto> ''9''] ''newly'', ins_mark [''w:id'' \<mapsto> ''5''] ''late'']"
  have d: "paragraph_deletions ?p (unique_id initial_state)
             = [(''5'', ''testing''), (''6'', ''very''), (''5'', ''old'')]"
    by code_simp
  have i: "paragraph_insertions ?p (unique_id initial_state)
             = [(''5'', ''test''), (''9'', ''newly''), (''5'', ''late'')]"
    by code_simp
  have n: "\<forall>d\<in>set (paragraph_deletions ?p (unique_id initial_state)). strip (snd d) \<noteq> []"
    unfolding d by code_simp
  have e: "map edit (data initial_state) = []"
    by (simp add: initial_state_def)
  have v: "map (\<lambda>d. case find (\<lambda>i. fst i = fst d) [(''5'', ''test''), (''9'', ''newly''), (''5'', ''late'')] of
                       None \<Rightarrow> (Some (snd d), None, ''deletion'')
                     | Some i \<Rightarrow> (Some (snd d), Some (snd i),
                          if is_partial_word_modification (snd d) (snd i)
                          then ''partial-word modification'' else ''both''))
              [(''5'', ''testing''), (''6'', ''very''), (''5'', ''old'')]
          @ map (\<lambda>i. (None, Some (snd i), ''insertion''))
              (filter (\<lambda>i. fst i \<notin> set (map fst [(''5'', ''testing''), (''6'', ''very''), (''5'', ''old'')]))
                 [(''5'', ''test''), (''9'', ''newly''), (''5'', ''late'')])
         = [(Some ''testing'', Some ''test'', ''partial-word modification''),
          (Some ''very'', None, ''deletion''),
          (Some ''old'', Some ''test'', ''both''),
          (None, Some ''newly'', ''insertion'')]"
    by code_simp
  from n have "bound initial_state
      \<or> (\<forall>d\<in>set (paragraph_deletions ?p (unique_id initial_state)). strip (snd d) \<noteq> [])"
    by (rule disjI2)
  then have "\<exists>t. paragraph_step ?p initial_state = Inr t"
    by (rule paragraph_correlation [THEN conjunct1, THEN mp])
  then obtain t where t: "paragraph_step ?p initial_state = Inr t" ..
  have "map edit (data t) = map edit (data initial_state)
          @ map (\<lambda>d. case find (\<lambda>i. fst i = fst d) (paragraph_insertions ?p (unique_id initial_state)) of
                       None \<Rightarrow> (Some (snd d), None, ''deletion'')
                     | Some i \<Rightarrow> (Some (snd d), Some (snd i),
                          if is_partial_word_modification (snd d) (snd i)
                          then ''partial-word modification'' else ''both''))
              (paragraph_deletions ?p (unique_id initial_state))
          @ map (\<lambda>i. (None, Some (snd i), ''insertion''))
              (filter (\<lambda>i. fst i \<notin> set (map fst (paragraph_deletions ?p (unique_id initial_state))))
                 (paragraph_insertions ?p (unique_id initial_state)))"
    by (rule paragraph_correlation [THEN conjunct2, THEN mp, OF t])
  then have "map edit (data t) =
         [(Some ''testing'', Some ''test'', ''partial-word modification''),
          (Some ''very'', None, ''deletion''),
          (Some ''old'', Some ''test'', ''both''),
          (None, Some ''newly'', ''insertion'')]"
    by (simp only: d i e v append_Nil)
  with t have "\<exists>s'. paragraph_step ?p initial_state = Inr s'
     \<and> map edit (data s') =
         [(Some ''testing'', Some ''test'', ''partial-word modification''),
          (Some ''very'', None, ''deletion''),
          (Some ''old'', Some ''test'', ''both''),
          (None, Some ''newly'', ''insertion'')]"
    by (intro exI [of _ t] conjI)
  with d show ?thesis by (rule conjI)
qed

subsection \<open>Sequence ids\<close>

lemma upto_snoc: "[1..int n] @ [int n + 1] = [1..int (Suc n)]"
proof -
  have "[1..int n + 1] = [1..int n + 1 - 1] @ [int n + 1]"
    by (rule upto_rec2) simp
  then show ?thesis by (simp add: add.commute)
qed

lemma ids_snoc:
  assumes "map ID (data t) = [1..int (length (data t))]"
    and "unique_id t = int (length (data t)) + 1"
    and "data t' = data t @ [r]" and "ID r = unique_id t" and "unique_id t' = unique_id t + 1"
  shows "map ID (data t') = [1..int (length (data t'))]
         \<and> unique_id t' = int (length (data t')) + 1"
  using assms upto_snoc [of "length (data t)"] by simp

lemma deletion_step_ids:
  assumes "deletion_step ft inss d t = Inr t'"
    and "map ID (data t) = [1..int (length (data t))] \<and> unique_id t = int (length (data t)) + 1"
  shows "map ID (data t') = [1..int (length (data t'))]
         \<and> unique_id t' = int (length (data t')) + 1"
proof -
  from deletion_step_Inr [OF assms(1)] obtain r where
    "data t' = data t @ [r]" "ID r = unique_id t" "unique_id t' = unique_id t + 1"
    by auto
  with assms(2) show ?thesis by (intro ids_snoc [of t t' r]) auto
qed

lemma insertion_step_ids:
  assumes "insertion_step ft dels i t = Inr t'"
    and "map ID (data t) = [1..int (length (data t))] \<and> unique_id t = int (length (data t)) + 1"
  shows "map ID (data t') = [1..int (length (data t'))]
         \<and> unique_id t' = int (length (data t')) + 1"
proof (cases "list_ex (\<lambda>d. fst d = fst i) dels")
  case True
  with insertion_step_Inr [OF assms(1)] assms(2) show ?thesis by simp
next
  case False
  with insertion_step_Inr [OF assms(1)] obtain r where
    "data t' = data t @ [r]" "ID r = unique_id t" "unique_id t' = unique_id t + 1"
    by auto
  with assms(2) show ?thesis by (intro ids_snoc [of t t' r]) auto
qed

lemma paragraph_step_ids:
  assumes "paragraph_step p s = Inr s'"
    and "map ID (data s) = [1..int (length (data s))] \<and> unique_id s = int (length (data s)) + 1"
  shows "map ID (data s') = [1..int (length (data s'))]
         \<and> unique_id s' = int (length (data s')) + 1"
proof -
  let ?I = "\<lambda>t. map ID (data t) = [1..int (length (data t))]
                 \<and> unique_id t = int (length (data t)) + 1"
  from assms(1) obtain s1 where
    d: "for_each (deletion_step (paragraph_text p) (paragraph_insertions p (unique_id s)))
          (paragraph_deletions p (unique_id s)) s = Inr s1"
    and i: "for_each (insertion_step (paragraph_text p) (paragraph_deletions p (unique_id s)))
          (paragraph_insertions p (unique_id s)) s1 = Inr s'"
    by (auto simp: paragraph_step_def Let_def split: sum.splits)
  have "?I s1"
    by (rule for_each_invariant [OF d, where I = ?I]) (use assms(2) deletion_step_ids in blast)+
  then show ?thesis
    by (intro for_each_invariant [OF i, where I = ?I]) (use insertion_step_ids in blast)+
qed

text \<open>
  C8: when the extraction returns \<open>n\<close> rows, their sequence ids are 1, 2, ..., \<open>n\<close> in
  the order of the rows, whatever the number of paragraphs without edits.
\<close>

theorem sequence_ids:
  "extract_tracked_changes root = Inr recs \<Longrightarrow> map ID recs = [1..int (length recs)]"
proof -
  assume a: "extract_tracked_changes root = Inr recs"
  let ?I = "\<lambda>t. map ID (data t) = [1..int (length (data t))]
                 \<and> unique_id t = int (length (data t)) + 1"
  from a obtain s where
    s: "for_each paragraph_step (findall root (w_tag ''p'')) initial_state = Inr s"
    and recs: "recs = data s"
    by (auto simp: extract_tracked_changes_def split: sum.splits)
  have "?I s"
  proof (rule for_each_invariant [OF s, where I = ?I])
    show "?I initial_state" by (simp add: initial_state_def)
  next
    fix x t t'
    assume "?I t" and "paragraph_step x t = Inr t'"
    then show "?I t'" using paragraph_step_ids by blast
  qed
  with recs show ?thesis by simp
qed

theorem sequence_ids_witness:
  "extract_tracked_changes
     (document [para [text_run ''no edits here''],
        para [del_mark Map.empty ''big'', text_run ''a '', ins_mark Map.empty ''large'',
              text_run '' dog''],
        para [],
        para [ins_mark Map.empty ''new'', text_run '' text''],
        para [text_run ''It was '', del_mark Map.empty ''very'', text_run ''good'']])
   = Inr [\<lparr>ID = 1, original_single = Some ''big'', original_partial = ''a large dog'',
            original_sentence = ''a large dog'', correction_single = Some ''large'',
            correction_partial = ''a large dog'', corrected_sentence = ''a large dog'',
            change_type = ''both''\<rparr>,
          \<lparr>ID = 2, original_single = None, original_partial = ''newtext'',
            original_sentence = ''new text'', correction_single = Some ''new'',
            correction_partial = ''newtext'', corrected_sentence = ''new text'',
            change_type = ''insertion''\<rparr>,
          \<lparr>ID = 3, original_single = Some ''very'', original_partial = ''It was good'',
            original_sentence = ''It was good'', correction_single = None,
            correction_partial = ''It was good'', corrected_sentence = ''It was good'',
            change_type = ''deletion''\<rparr>]
   \<and> map ID
        [\<lparr>ID = 1, original_single = Some ''big'', original_partial = ''a large dog'',
            original_sentence = ''a large dog'', correction_single = Some ''large'',
            correction_partial = ''a large dog'', corrected_sentence = ''a large dog'',
            change_type = ''both''\<rparr>,
          \<lparr>ID = 2, original_single = None, original_partial = ''newtext'',
            original_sentence = ''new text'', correction_single = Some ''new'',
            correction_partial = ''newtext'', corrected_sentence = ''new text'',
            change_type = ''insertion''\<rparr>,
          \<lparr>ID = 3, original_single = Some ''very'', original_partial = ''It was good'',
            original_sentence = ''It was good'', correction_single = None,
            correction_partial = ''It was good'', corrected_sentence = ''It was good'',
            change_type = ''deletion''\<rparr>]
      = [1..3]"
proof -
  let ?recs = "[\<lparr>ID = 1, original_single = Some ''big'', original_partial = ''a large dog'',
            original_sentence = ''a large dog'', correction_single = Some ''large'',
            correction_partial = ''a large dog'', corrected_sentence = ''a large dog'',
            change_type = ''both''\<rparr>,
          \<lparr>ID = 2, original_single = None, original_partial = ''newtext'',
            original_sentence = ''new text'', correction_single = Some ''new'',
            correction_partial = ''newtext'', corrected_sentence = ''new text'',
            change_type = ''insertion''\<rparr>,
          \<lparr>ID = 3, original_single = Some ''very'', original_partial = ''It was good'',
            original_sentence = ''It was good'', correction_single = None,
            correction_partial = ''It was good'', corrected_sentence = ''It was good'',
            change_type = ''deletion''\<rparr>]"
  have h: "extract_tracked_changes
     (document [para [text_run ''no edits here''],
        para [del_mark Map.empty ''big'', text_run ''a '', ins_mark Map.empty ''large'',
              text_run '' dog''],
        para [],
        para [ins_mark Map.empty ''new'', text_run '' text''],
        para [text_run ''It was '', del_mark Map.empty ''very'', text_run ''good'']])
    = Inr ?recs"
    by code_simp
  have l: "int (length ?recs) = 3" by simp
  have "map ID ?recs = [1..int (length ?recs)]"
    by (rule sequence_ids [OF h])
  then have "map ID ?recs = [1..3]" by (simp only: l)
  with h show ?thesis by (rule conjI)
qed

subsection \<open>Classification\<close>

lemma startswith_append: "startswith s p \<longleftrightarrow> (\<exists>rest. s = p @ rest)"
proof
  assume "startswith s p"
  then have "s = p @ drop (length p) s"
    using append_take_drop_id [of "length p" s] by (simp add: startswith_def)
  then show "\<exists>rest. s = p @ rest" ..
next
  assume "\<exists>rest. s = p @ rest"
  then show "startswith s p" by (auto simp: startswith_def)
qed

lemma row_change_type:
  assumes "deletion_row r \<or> insertion_row r"
  shows "change_type r =
           (case original_single r of
              None \<Rightarrow> ''insertion''
            | Some t \<Rightarrow>
               (case correction_single r of
                  None \<Rightarrow> ''deletion''
                | Some c \<Rightarrow> if is_partial_word_modification t c
                            then ''partial-word modification'' else ''both''))"
  using assms
proof
  assume "deletion_row r"
  then show ?thesis
    by (cases "correction_single r")
       (auto simp: deletion_row_def reclassify_def truthy_def or_empty_def
             split: option.splits)
next
  assume "insertion_row r"
  then show ?thesis by (simp add: insertion_row_def)
qed

text \<open>
  C3: a pair of texts is a partial-word modification exactly when the lengths differ and
  the lowercased original begins with the lowercased correction.  In every row returned
  by the extraction the type is fixed by the two snippets: insertion when there is no
  original, deletion when there is no correction, and for a replacement partial-word
  modification exactly when the pair of texts is one, both otherwise.  The pair testing,
  test is a partial-word modification; the pair color, colour is not.
\<close>

theorem reclassification:
  "(is_partial_word_modification original corrected \<longleftrightarrow>
      length original \<noteq> length corrected
      \<and> (\<exists>rest. lower original = lower corrected @ rest))
   \<and> (extract_tracked_changes root = Inr recs \<and> r \<in> set recs \<longrightarrow>
        change_type r =
          (case original_single r of
             None \<Rightarrow> ''insertion''
           | Some t \<Rightarrow>
              (case correction_single r of
                 None \<Rightarrow> ''deletion''
               | Some c \<Rightarrow> if is_partial_word_modification t c
                           then ''partial-word modification'' else ''both'')))
   \<and> is_partial_word_modification ''testing'' ''test''
   \<and> \<not> is_partial_word_modification ''color'' ''colour''"
proof -
  have a: "is_partial_word_modification original corrected \<longleftrightarrow>
      length original \<noteq> length corrected
      \<and> (\<exists>rest. lower original = lower corrected @ rest)"
    by (simp add: is_partial_word_modification_def startswith_append)
  have b: "extract_tracked_changes root = Inr recs \<and> r \<in> set recs \<longrightarrow>
        change_type r =
          (case original_single r of
             None \<Rightarrow> ''insertion''
           | Some t \<Rightarrow>
              (case correction_single r of
                 None \<Rightarrow> ''deletion''
               | Some c \<Rightarrow> if is_partial_word_modification t c
                           then ''partial-word modification'' else ''both''))"
    using extract_tracked_changes_rows [of root recs r] row_change_type [of r] by blast
  have c: "is_partial_word_modification ''testing'' ''test''" by code_simp
  have d: "\<not> is_partial_word_modification ''color'' ''colour''" by code_simp
  from a b c d show ?thesis by (intro conjI)
qed

theorem reclassification_witness:
  "extract_tracked_changes
     (document [para [text_run ''He is '', del_mark Map.empty ''testing'',
                      ins_mark Map.empty ''test'', text_run '' pilot'']])
   = Inr [\<lparr>ID = 1, original_single = Some ''testing'',
            original_partial = ''He is test pilot'', original_sentence = ''He is test pilot'',
            correction_single = Some ''test'', correction_partial = ''He is test pilot'',
            corrected_sentence = ''He is test pilot'',
            change_type = ''partial-word modification''\<rparr>]
   \<and> is_partial_word_modification ''testing'' ''test''"
proof -
  let ?r = "\<lparr>ID = 1, original_single = Some ''testing'',
            original_partial = ''He is test pilot'', original_sentence = ''He is test pilot'',
            correction_single = Some ''test'', correction_partial = ''He is test pilot'',
            corrected_sentence = ''He is test pilot'',
            change_type = ''partial-word modification''\<rparr>"
  let ?root = "document [para [text_run ''He is '', del_mark Map.empty ''testing'',
                      ins_mark Map.empty ''test'', text_run '' pilot'']]"
  have h: "extract_tracked_changes ?root = Inr [?r]" by code_simp
  have m: "?r \<in> set [?r]" by simp
  have "change_type ?r =
          (case original_single ?r of
             None \<Rightarrow> ''insertion''
           | Some t \<Rightarrow>
              (case correction_single ?r of
                 None \<Rightarrow> ''deletion''
               | Some c \<Rightarrow> if is_partial_word_modification t c
                           then ''partial-word modification'' else ''both''))"
    by (rule reclassification [THEN conjunct2, THEN conjunct1, THEN mp, OF conjI [OF h m]])
  then have "is_partial_word_modification ''testing'' ''test''"
    by (simp split: if_splits)
  with h show ?thesis by (rule conjI)
qed

subsection \<open>The context and sentence fields\<close>

lemma row_correction_partial:
  assumes "deletion_row r \<or> insertion_row r"
  shows "(change_type r = ''deletion'' \<or> change_type r = ''both''
            \<or> change_type r = ''partial-word modification''
          \<longrightarrow> original_single r \<noteq> None \<and> correction_partial r = corrected_sentence r)
         \<and> (change_type r = ''insertion''
          \<longrightarrow> original_single r = None \<and> correction_partial r = original_partial r)
         \<and> (change_type r = ''deletion'' \<or> change_type r = ''both''
            \<or> change_type r = ''partial-word modification'' \<or> change_type r = ''insertion'')"
  using assms
proof
  assume d: "deletion_row r"
  then have "change_type r = ''deletion'' \<or> change_type r = ''both''
            \<or> change_type r = ''partial-word modification''"
    by (auto simp: deletion_row_def reclassify_def split: option.splits)
  moreover from d have "original_single r \<noteq> None \<and> correction_partial r = corrected_sentence r"
    by (auto simp: deletion_row_def split: option.splits)
  ultimately show ?thesis by auto
next
  assume "insertion_row r"
  then show ?thesis by (simp add: insertion_row_def)
qed

text \<open>
  C10: in every row returned by the extraction, the correction context of a row of type
  deletion, both or partial-word modification is the row's corrected sentence, and the
  correction context of a row of type insertion is the row's original context; every row
  has one of these four types.
\<close>

theorem correction_context:
  "extract_tracked_changes root = Inr recs \<and> r \<in> set recs \<longrightarrow>
     (change_type r = ''deletion'' \<or> change_type r = ''both''
        \<or> change_type r = ''partial-word modification''
      \<longrightarrow> original_single r \<noteq> None \<and> correction_partial r = corrected_sentence r)
     \<and> (change_type r = ''insertion''
      \<longrightarrow> original_single r = None \<and> correction_partial r = original_partial r)
     \<and> (change_type r = ''deletion'' \<or> change_type r = ''both''
        \<or> change_type r = ''partial-word modification'' \<or> change_type r = ''insertion'')"
  using extract_tracked_changes_rows [of root recs r] row_correction_partial [of r] by blast

theorem correction_context_witness:
  "extract_tracked_changes
     (document [para [del_mark Map.empty ''big'', text_run ''a '',
                      ins_mark Map.empty ''large'', text_run '' dog''],
                para [ins_mark Map.empty ''new'', text_run '' text'']])
   = Inr [\<lparr>ID = 1, original_single = Some ''big'', original_partial = ''a large dog'',
            original_sentence = ''a large dog'', correction_single = Some ''large'',
            correction_partial = ''a large dog'', corrected_sentence = ''a large dog'',
            change_type = ''both''\<rparr>,
          \<lparr>ID = 2, original_single = None, original_partial = ''newtext'',
            original_sentence = ''new text'', correction_single = Some ''new'',
            correction_partial = ''newtext'', corrected_sentence = ''new text'',
            change_type = ''insertion''\<rparr>]
   \<and> correction_partial
        \<lparr>ID = 2, original_single = None, original_partial = ''newtext'',
          original_sentence = ''new text'', correction_single = Some ''new'',
          correction_partial = ''newtext'', corrected_sentence = ''new text'',
          change_type = ''insertion''\<rparr>
      = original_partial
        \<lparr>ID = 2, original_single = None, original_partial = ''newtext'',
          original_sentence = ''new text'', correction_single = Some ''new'',
          correction_partial = ''newtext'', corrected_sentence = ''new text'',
          change_type = ''insertion''\<rparr>"
proof -
  let ?r1 = "\<lparr>ID = 1, original_single = Some ''big'', original_partial = ''a large dog'',
            original_sentence = ''a large dog'', correction_single = Some ''large'',
            correction_partial = ''a large dog'', corrected_sentence = ''a large dog'',
            change_type = ''both''\<rparr>"
  let ?r2 = "\<lparr>ID = 2, original_single = None, original_partial = ''newtext'',
            original_sentence = ''new text'', correction_single = Some ''new'',
            correction_partial = ''newtext'', corrected_sentence = ''new text'',
            change_type = ''insertion''\<rparr>"
  let ?root = "document [para [del_mark Map.empty ''big'', text_run ''a '',
                      ins_mark Map.empty ''large'', text_run '' dog''],
                para [ins_mark Map.empty ''new'', text_run '' text'']]"
  have h: "extract_tracked_changes ?root = Inr [?r1, ?r2]" by code_simp
  have m: "?r2 \<in> set [?r1, ?r2]" by simp
  have t: "change_type ?r2 = ''insertion''" by simp
  note c = correction_context [of ?root "[?r1, ?r2]" ?r2, THEN mp, OF conjI [OF h m]]
  have "original_single ?r2 = None \<and> correction_partial ?r2 = original_partial ?r2"
    by (rule c [THEN conjunct2, THEN conjunct1, THEN mp, OF t])
  then have "correction_partial ?r2 = original_partial ?r2" by (rule conjunct2)
  with h show ?thesis by (rule conjI)
qed

subsection \<open>The corrected sentence\<close>

lemma replace_from_occurrence:
  "old \<noteq> [] \<Longrightarrow> replace_from old new (old @ s) = new @ replace_from old new s"
proof -
  assume ne: "old \<noteq> []"
  then obtain c cs where o: "old = c # cs" by (cases old) auto
  have "startswith (c # (cs @ s)) old" by (simp add: startswith_def o)
  moreover have "drop (length old - 1) (cs @ s) = s" by (simp add: o)
  ultimately have "replace_from old new (c # (cs @ s)) = new @ replace_from old new s"
    by simp
  then show ?thesis by (simp add: o)
qed

lemma replace_occurrence:
  "old \<noteq> [] \<Longrightarrow> replace (old @ s) old new = new @ replace s old new"
  by (simp add: replace_def replace_from_occurrence)

lemma replace_other:
  "old \<noteq> [] \<Longrightarrow> \<not> startswith (c # cs) old \<Longrightarrow>
     replace (c # cs) old new = c # replace cs old new"
  by (simp add: replace_def)

lemma row_corrected_sentence:
  assumes "deletion_row r \<or> insertion_row r"
    and "original_single r = Some t" and "\<exists>c\<in>set t. \<not> isspace c"
  shows "corrected_sentence r =
           replace (original_sentence r) t
             (case correction_single r of None \<Rightarrow> [] | Some c \<Rightarrow> c)"
proof -
  from assms(3) have "strip t \<noteq> []" by (simp add: strip_Nil)
  moreover from assms(1,2) have "deletion_row r" by (auto simp: insertion_row_def)
  ultimately show ?thesis
    using assms(2) by (simp add: deletion_row_def or_empty_def)
qed

text \<open>
  The claim C4 as stated fails: with the text \<open>a b a\<close> and the deleted snippet \<open>a\<close>, the
  corrected sentence of the row has both occurrences removed, while removing the first
  occurrence only leaves the second one.
\<close>

theorem first_occurrence_counterexample:
  "extract_tracked_changes (document [para [del_mark Map.empty ''a'', text_run ''a b a'']])
   = Inr [\<lparr>ID = 1, original_single = Some ''a'', original_partial = ''aba'',
            original_sentence = ''a b a'', correction_single = None,
            correction_partial = '' b '', corrected_sentence = '' b '',
            change_type = ''deletion''\<rparr>]
   \<and> replace_first ''a'' [] ''a b a'' = '' b a''
   \<and> '' b '' \<noteq> '' b a''"
  by code_simp

text \<open>
  C4, amended: in every row returned by the extraction whose original snippet has a
  character that is not whitespace, the corrected sentence is the original sentence with
  every occurrence of the snippet, found from the left without overlap, replaced by the
  correction (removed when there is no correction): at an occurrence the replacement is
  emitted and the scan goes on behind it, elsewhere the character is kept.
\<close>

theorem corrected_sentence_replace_all:
  "(extract_tracked_changes root = Inr recs \<and> r \<in> set recs
      \<and> original_single r = Some t \<and> (\<exists>c\<in>set t. \<not> isspace c)
     \<longrightarrow> corrected_sentence r =
           replace (original_sentence r) t
             (case correction_single r of None \<Rightarrow> [] | Some c \<Rightarrow> c))
   \<and> (old \<noteq> [] \<longrightarrow> replace (old @ s) old new = new @ replace s old new)
   \<and> (old \<noteq> [] \<and> \<not> startswith (c # cs) old
        \<longrightarrow> replace (c # cs) old new = c # replace cs old new)
   \<and> (old \<noteq> [] \<longrightarrow> replace [] old new = [])"
proof -
  have a: "extract_tracked_changes root = Inr recs \<and> r \<in> set recs
      \<and> original_single r = Some t \<and> (\<exists>c\<in>set t. \<not> isspace c)
     \<longrightarrow> corrected_sentence r =
           replace (original_sentence r) t
             (case correction_single r of None \<Rightarrow> [] | Some c \<Rightarrow> c)"
    using extract_tracked_changes_rows [of root recs r] row_corrected_sentence [of r t]
    by blast
  have b: "old \<noteq> [] \<longrightarrow> replace (old @ s) old new = new @ replace s old new"
    by (simp add: replace_occurrence)
  have c: "old \<noteq> [] \<and> \<not> startswith (c # cs) old
        \<longrightarrow> replace (c # cs) old new = c # replace cs old new"
    by (simp add: replace_other)
  have d: "old \<noteq> [] \<longrightarrow> replace [] old new = []"
    by (simp add: replace_def)
  from a b c d show ?thesis by (intro conjI)
qed

theorem corrected_sentence_replace_all_witness:
  "extract_tracked_changes (document [para [del_mark Map.empty ''a'', text_run ''a b a'']])
   = Inr [\<lparr>ID = 1, original_single = Some ''a'', original_partial = ''aba'',
            original_sentence = ''a b a'', correction_single = None,
            correction_partial = '' b '', corrected_sentence = '' b '',
            change_type = ''deletion''\<rparr>]
   \<and> '' b '' = replace ''a b a'' ''a'' []
   \<and> replace (''a'' @ '' b a'') ''a'' ''the'' = ''the'' @ replace '' b a'' ''a'' ''the''
   \<and> replace (CHR '' '' # ''b a'') ''a'' ''the'' = CHR '' '' # replace ''b a'' ''a'' ''the''
   \<and> replace [] ''a'' ''the'' = []"
proof -
  let ?r = "\<lparr>ID = 1, original_single = Some ''a'', original_partial = ''aba'',
            original_sentence = ''a b a'', correction_single = None,
            correction_partial = '' b '', corrected_sentence = '' b '',
            change_type = ''deletion''\<rparr>"
  let ?root = "document [para [del_mark Map.empty ''a'', text_run ''a b a'']]"
  note th = corrected_sentence_replace_all
              [of ?root "[?r]" ?r "''a''" "''a''" "'' b a''" "''the''" "CHR '' ''" "''b a''"]
  have h: "extract_tracked_changes ?root = Inr [?r]" by code_simp
  have m: "?r \<in> set [?r]" by simp
  have o: "original_single ?r = Some ''a''" by simp
  have n: "\<exists>c\<in>set ''a''. \<not> isspace c" by code_simp
  have "corrected_sentence ?r =
           replace (original_sentence ?r) ''a''
             (case correction_single ?r of None \<Rightarrow> [] | Some c \<Rightarrow> c)"
    by (rule th [THEN conjunct1, THEN mp]) (intro conjI h m o n)
  then have r1: "'' b '' = replace ''a b a'' ''a'' []" by simp
  have ne: "''a'' \<noteq> []" by simp
  have r2: "replace (''a'' @ '' b a'') ''a'' ''the'' = ''the'' @ replace '' b a'' ''a'' ''the''"
    by (rule th [THEN conjunct2, THEN conjunct1, THEN mp, OF ne])
  have ns: "\<not> startswith (CHR '' '' # ''b a'') ''a''" by code_simp
  have r3: "replace (CHR '' '' # ''b a'') ''a'' ''the'' = CHR '' '' # replace ''b a'' ''a'' ''the''"
    by (rule th [THEN conjunct2, THEN conjunct2, THEN conjunct1, THEN mp, OF conjI [OF ne ns]])
  have r4: "replace [] ''a'' ''the'' = []"
    by (rule th [THEN conjunct2, THEN conjunct2, THEN conjunct2, THEN mp, OF ne])
  from h r1 r2 r3 r4 show ?thesis by (intro conjI)
qed

subsection \<open>Marks with empty or blank text\<close>

lemma row_snippets_nonempty:
  assumes "deletion_row r \<or> insertion_row r"
  shows "original_single r \<noteq> Some [] \<and> correction_single r \<noteq> Some []"
  using assms
proof
  assume "deletion_row r"
  then show ?thesis by (auto simp: deletion_row_def split: option.splits)
next
  assume "insertion_row r"
  then show ?thesis by (auto simp: insertion_row_def truthy_def)
qed

text \<open>
  The claim C5 as stated fails: a deletion mark and an insertion mark whose text is one
  space are kept in the lists of their paragraph, and rows are produced from them.
\<close>

theorem blank_mark_counterexample:
  "strip '' '' = []
   \<and> paragraph_deletions (para [del_mark Map.empty '' '']) 1 = [(''1'', '' '')]
   \<and> paragraph_insertions (para [ins_mark Map.empty '' '']) 1 = [(''1'', '' '')]
   \<and> extract_tracked_changes (document [para [ins_mark Map.empty '' '']])
       = Inr [\<lparr>ID = 1, original_single = None, original_partial = '' '',
                original_sentence = '' '', correction_single = Some '' '',
                correction_partial = '' '', corrected_sentence = '' '',
                change_type = ''insertion''\<rparr>]
   \<and> extract_tracked_changes
         (document [para [ins_mark Map.empty ''x''], para [del_mark Map.empty '' '']])
       = Inr [\<lparr>ID = 1, original_single = None, original_partial = ''x'',
                original_sentence = ''x'', correction_single = Some ''x'',
                correction_partial = ''x'', corrected_sentence = ''x'',
                change_type = ''insertion''\<rparr>,
              \<lparr>ID = 2, original_single = Some '' '', original_partial = ''x'',
                original_sentence = [], correction_single = None,
                correction_partial = ''x'', corrected_sentence = ''x'',
                change_type = ''deletion''\<rparr>]"
  by code_simp

text \<open>
  C5, amended: the scanner discards exactly the marks whose extracted text is empty.  The
  insertion list of a paragraph is the list of its insertion marks with non-empty text,
  in document order, and the deletion list is the merge of its deletion marks with
  non-empty text; a mark whose text is only whitespace is kept.  No entry of either list
  has an empty text, and in no row returned by the extraction is the original snippet or
  the correction snippet the empty string.
\<close>

theorem scanner_discards_empty:
  "paragraph_deletions p uid =
     merge_deletions
       (map (\<lambda>el. (mark_id uid el, mark_text (w_tag ''delText'') el))
          (filter (\<lambda>el. mark_text (w_tag ''delText'') el \<noteq> []) (findall p (w_tag ''del''))))
   \<and> paragraph_insertions p uid =
       map (\<lambda>el. (mark_id uid el, mark_text (w_tag ''t'') el))
         (filter (\<lambda>el. mark_text (w_tag ''t'') el \<noteq> []) (findall p (w_tag ''ins'')))
   \<and> (m \<in> set (paragraph_deletions p uid) \<union> set (paragraph_insertions p uid)
        \<longrightarrow> snd m \<noteq> [])
   \<and> (extract_tracked_changes root = Inr recs \<and> r \<in> set recs
        \<longrightarrow> original_single r \<noteq> Some [] \<and> correction_single r \<noteq> Some [])"
proof -
  have a: "paragraph_deletions p uid =
     merge_deletions
       (map (\<lambda>el. (mark_id uid el, mark_text (w_tag ''delText'') el))
          (filter (\<lambda>el. mark_text (w_tag ''delText'') el \<noteq> []) (findall p (w_tag ''del''))))"
    by (simp add: paragraph_deletions_def scan_marks_filter)
  have b: "paragraph_insertions p uid =
       map (\<lambda>el. (mark_id uid el, mark_text (w_tag ''t'') el))
         (filter (\<lambda>el. mark_text (w_tag ''t'') el \<noteq> []) (findall p (w_tag ''ins'')))"
    by (simp add: paragraph_insertions_def scan_marks_filter)
  have c: "m \<in> set (paragraph_deletions p uid) \<union> set (paragraph_insertions p uid)
        \<longrightarrow> snd m \<noteq> []"
    using paragraph_deletions_nonempty [of m p uid] paragraph_insertions_nonempty [of m p uid]
    by blast
  have d: "extract_tracked_changes root = Inr recs \<and> r \<in> set recs
        \<longrightarrow> original_single r \<noteq> Some [] \<and> correction_single r \<noteq> Some []"
    using extract_tracked_changes_rows [of root recs r] row_snippets_nonempty [of r] by blast
  from a b c d show ?thesis by (intro conjI)
qed

theorem scanner_discards_empty_witness:
  "paragraph_deletions (para [del_mark Map.empty [], del_mark Map.empty '' '']) 1
     = [(''1'', '' '')]
   \<and> snd (''1'', '' '') \<noteq> []
   \<and> extract_tracked_changes (document [para [ins_mark Map.empty [], ins_mark Map.empty '' '']])
       = Inr [\<lparr>ID = 1, original_single = None, original_partial = '' '',
                original_sentence = '' '', correction_single = Some '' '',
                correction_partial = '' '', corrected_sentence = '' '',
                change_type = ''insertion''\<rparr>]
   \<and> correction_single
         \<lparr>ID = 1, original_single = None, original_partial = '' '',
           original_sentence = '' '', correction_single = Some '' '',
           correction_partial = '' '', corrected_sentence = '' '',
           change_type = ''insertion''\<rparr> \<noteq> Some []"
proof -
  let ?p = "para [del_mark Map.empty [], del_mark Map.empty '' '']"
  let ?root = "document [para [ins_mark Map.empty [], ins_mark Map.empty '' '']]"
  let ?r = "\<lparr>ID = 1, original_single = None, original_partial = '' '',
           original_sentence = '' '', correction_single = Some '' '',
           correction_partial = '' '', corrected_sentence = '' '',
           change_type = ''insertion''\<rparr>"
  note th = scanner_discards_empty [where p = ?p and uid = 1 and m = "(''1'', '' '')"
               and root = ?root and recs = "[?r]" and r = ?r]
  have d: "paragraph_deletions ?p 1 = [(''1'', '' '')]" by code_simp
  have "(''1'', '' '') \<in> set (paragraph_deletions ?p 1) \<union> set (paragraph_insertions ?p 1)"
    by (simp only: d) simp
  then have m: "snd (''1'', '' '') \<noteq> []"
    by (rule th [THEN conjunct2, THEN conjunct2, THEN conjunct1, THEN mp])
  have h: "extract_tracked_changes ?root = Inr [?r]" by code_simp
  have i: "?r \<in> set [?r]" by simp
  have "original_single ?r \<noteq> Some [] \<and> correction_single ?r \<noteq> Some []"
    by (rule th [THEN conjunct2, THEN conjunct2, THEN conjunct2, THEN mp, OF conjI [OF h i]])
  then have c: "correction_single ?r \<noteq> Some []" by (rule conjunct2)
  from d m h c show ?thesis by (intro conjI)
qed

subsection \<open>Fallback identifiers\<close>

lemma scan_marks_ids:
  assumes "\<forall>el\<in>set els. attrib el ''w:id'' = None"
    and "m \<in> set (scan_marks text_tag uid els [])"
  shows "fst m = str uid"
  using assms by (auto simp: scan_marks_filter mark_id_def)

lemma merge_deletions_same_id:
  assumes "\<forall>m\<in>set ds. fst m = x"
  shows "(\<forall>m\<in>set (merge_deletions ds). fst m = x) \<and> length (merge_deletions ds) \<le> 1"
proof -
  have "\<forall>y\<in>set (map fst ds). y = x" using assms by simp
  then have "replicate (length (map fst ds)) x = map fst ds"
    by (rule replicate_length_same)
  then have "remdups_adj (map fst ds) = (if length ds = 0 then [] else [x])"
    using remdups_adj_replicate [of "length ds" x] by simp
  then have i: "map fst (merge_deletions ds) = (if length ds = 0 then [] else [x])"
    by (simp only: merge_deletions_ids)
  have "length (map fst (merge_deletions ds)) \<le> 1"
    by (simp only: i) simp
  moreover have "\<forall>y\<in>set (map fst (merge_deletions ds)). y = x"
    by (simp only: i) simp
  ultimately show ?thesis by simp
qed

lemma paragraph_deletions_fallback:
  assumes "\<forall>el\<in>set (findall p (w_tag ''del'')). attrib el ''w:id'' = None"
  shows "(\<forall>d\<in>set (paragraph_deletions p uid). fst d = str uid)
         \<and> length (paragraph_deletions p uid) \<le> 1"
  unfolding paragraph_deletions_def
  by (rule merge_deletions_same_id) (use assms scan_marks_ids in blast)

lemma paragraph_insertions_fallback:
  assumes "el \<in> set (findall p (w_tag ''ins''))" and "attrib el ''w:id'' = None"
    and "mark_text (w_tag ''t'') el \<noteq> []"
  shows "next_match (paragraph_insertions p uid) (str uid) \<noteq> None"
proof -
  have "(mark_id uid el, mark_text (w_tag ''t'') el) \<in> set (paragraph_insertions p uid)"
    using assms(1,3) by (auto simp: paragraph_insertions_def scan_marks_filter)
  moreover have "mark_id uid el = str uid" using assms(2) by (simp add: mark_id_def)
  ultimately have "str uid \<in> set (map fst (paragraph_insertions p uid))" by force
  then show ?thesis by (simp only: next_match_None not_not)
qed

lemma paragraph_step_counter:
  assumes "paragraph_step p s = Inr s'"
  shows "unique_id s \<le> unique_id s'"
proof -
  let ?I = "\<lambda>t. unique_id s \<le> unique_id t"
  from assms obtain s1 where
    d: "for_each (deletion_step (paragraph_text p) (paragraph_insertions p (unique_id s)))
          (paragraph_deletions p (unique_id s)) s = Inr s1"
    and i: "for_each (insertion_step (paragraph_text p) (paragraph_deletions p (unique_id s)))
          (paragraph_insertions p (unique_id s)) s1 = Inr s'"
    by (auto simp: paragraph_step_def Let_def split: sum.splits)
  have "?I s1"
  proof (rule for_each_invariant [OF d, where I = ?I])
    show "?I s" by simp
  next
    fix x t t'
    assume "?I t" and "deletion_step (paragraph_text p) (paragraph_insertions p (unique_id s)) x t = Inr t'"
    with deletion_step_Inr [of "paragraph_text p" "paragraph_insertions p (unique_id s)" x t t']
    show "?I t'" by auto
  qed
  show ?thesis
  proof (rule for_each_invariant [OF i, where I = ?I])
    show "?I s1" by fact
  next
    fix x t t'
    assume "?I t" and "insertion_step (paragraph_text p) (paragraph_deletions p (unique_id s)) x t = Inr t'"
    with insertion_step_Inr [of "paragraph_text p" "paragraph_deletions p (unique_id s)" x t t']
    show "?I t'" by (auto split: if_splits)
  qed
qed

text \<open>
  The claim C6 as stated fails: in a paragraph with two deletion marks and one insertion
  mark, none of which has an id, all three marks receive the same fallback identifier;
  the two deletions are merged into one, which is matched with the insertion, and the
  extraction returns a single row of type both.
\<close>

theorem fallback_counterexample:
  "scan_marks (w_tag ''delText'') 1
     (findall (para [del_mark Map.empty ''A'', del_mark Map.empty ''B'',
                     ins_mark Map.empty ''C'']) (w_tag ''del'')) []
     = [(''1'', ''A''), (''1'', ''B'')]
   \<and> paragraph_deletions
        (para [del_mark Map.empty ''A'', del_mark Map.empty ''B'', ins_mark Map.empty ''C'']) 1
      = [(''1'', ''A B'')]
   \<and> paragraph_insertions
        (para [del_mark Map.empty ''A'', del_mark Map.empty ''B'', ins_mark Map.empty ''C'']) 1
      = [(''1'', ''C'')]
   \<and> extract_tracked_changes
        (document [para [del_mark Map.empty ''A'', del_mark Map.empty ''B'',
                         ins_mark Map.empty ''C'']])
      = Inr [\<lparr>ID = 1, original_single = Some ''A B'', original_partial = ''C'',
               original_sentence = ''C'', correction_single = Some ''C'',
               correction_partial = ''C'', corrected_sentence = ''C'',
               change_type = ''both''\<rparr>]"
  by code_simp

text \<open>
  C6, amended: a mark for which the lookup of the id finds nothing receives as its
  identifier the decimal string of the record counter as it stands when the paragraph is
  scanned.  The counter does not move during the scan, so all such marks of a paragraph,
  deletions and insertions alike, receive the same identifier: when no deletion mark of
  the paragraph has an id, the merged deletion list has at most one entry, and it is
  matched with an insertion as soon as one insertion mark with non-empty text has no id.
  From one paragraph to the next the counter never decreases.
\<close>

theorem fallback_identifier:
  "(attrib el ''w:id'' = None \<longrightarrow> mark_id uid el = str uid)
   \<and> ((\<forall>e\<in>set (findall p (w_tag ''del'')). attrib e ''w:id'' = None)
        \<longrightarrow> length (paragraph_deletions p uid) \<le> 1
            \<and> (\<forall>d\<in>set (paragraph_deletions p uid). fst d = str uid))
   \<and> ((\<forall>e\<in>set (findall p (w_tag ''del'')). attrib e ''w:id'' = None)
        \<and> el \<in> set (findall p (w_tag ''ins'')) \<and> attrib el ''w:id'' = None
        \<and> mark_text (w_tag ''t'') el \<noteq> []
        \<longrightarrow> (\<forall>d\<in>set (paragraph_deletions p uid).
               next_match (paragraph_insertions p uid) (fst d) \<noteq> None))
   \<and> (paragraph_step p s = Inr s' \<longrightarrow> unique_id s \<le> unique_id s')"
proof -
  have a: "attrib el ''w:id'' = None \<longrightarrow> mark_id uid el = str uid"
    by (simp add: mark_id_def)
  have b: "(\<forall>e\<in>set (findall p (w_tag ''del'')). attrib e ''w:id'' = None)
        \<longrightarrow> length (paragraph_deletions p uid) \<le> 1
            \<and> (\<forall>d\<in>set (paragraph_deletions p uid). fst d = str uid)"
    using paragraph_deletions_fallback [of p uid] by blast
  have c: "(\<forall>e\<in>set (findall p (w_tag ''del'')). attrib e ''w:id'' = None)
        \<and> el \<in> set (findall p (w_tag ''ins'')) \<and> attrib el ''w:id'' = None
        \<and> mark_text (w_tag ''t'') el \<noteq> []
        \<longrightarrow> (\<forall>d\<in>set (paragraph_deletions p uid).
               next_match (paragraph_insertions p uid) (fst d) \<noteq> None)"
    using paragraph_deletions_fallback [of p uid] paragraph_insertions_fallback [of el p uid]
    by metis
  have d: "paragraph_step p s = Inr s' \<longrightarrow> unique_id s \<le> unique_id s'"
    using paragraph_step_counter [of p s s'] by blast
  from a b c d show ?thesis by (intro conjI)
qed

theorem fallback_identifier_witness:
  "mark_id 1 (ins_mark Map.empty ''C'') = str 1
   \<and> length (paragraph_deletions
        (para [del_mark Map.empty ''A'', del_mark Map.empty ''B'', ins_mark Map.empty ''C'']) 1)
       \<le> 1
   \<and> next_match (paragraph_insertions
          (para [del_mark Map.empty ''A'', del_mark Map.empty ''B'', ins_mark Map.empty ''C''])
          1) (fst (''1'', ''A B'')) \<noteq> None
   \<and> paragraph_step
        (para [del_mark Map.empty ''A'', del_mark Map.empty ''B'', ins_mark Map.empty ''C''])
        initial_state
      = Inr \<lparr>data = [\<lparr>ID = 1, original_single = Some ''A B'', original_partial = ''C'',
                       original_sentence = ''C'', correction_single = Some ''C'',
                       correction_partial = ''C'', corrected_sentence = ''C'',
                       change_type = ''both''\<rparr>],
              unique_id = 2, original_partial_var = Some ''C'',
              corrected_sentence_var = Some ''C''\<rparr>
   \<and> unique_id initial_state
       \<le> unique_id \<lparr>data = [\<lparr>ID = 1, original_single = Some ''A B'', original_partial = ''C'',
                       original_sentence = ''C'', correction_single = Some ''C'',
                       correction_partial = ''C'', corrected_sentence = ''C'',
                       change_type = ''both''\<rparr>],
              unique_id = 2, original_partial_var = Some ''C'',
              corrected_sentence_var = Some ''C''\<rparr>"
proof -
  let ?p = "para [del_mark Map.empty ''A'', del_mark Map.empty ''B'', ins_mark Map.empty ''C'']"
  let ?el = "ins_mark Map.empty ''C''"
  let ?s' = "\<lparr>data = [\<lparr>ID = 1, original_single = Some ''A B'', original_partial = ''C'',
                       original_sentence = ''C'', correction_single = Some ''C'',
                       correction_partial = ''C'', corrected_sentence = ''C'',
                       change_type = ''both''\<rparr>],
              unique_id = 2, original_partial_var = Some ''C'',
              corrected_sentence_var = Some ''C''\<rparr>"
  note th = fallback_identifier [where el = ?el and uid = 1 and p = ?p
               and s = initial_state and s' = ?s']
  have h1: "attrib ?el ''w:id'' = None" by (simp add: ins_mark_def)
  have h2: "\<forall>e\<in>set (findall ?p (w_tag ''del'')). attrib e ''w:id'' = None" by code_simp
  have h3: "?el \<in> set (findall ?p (w_tag ''ins''))" 
    by (simp add: findall_def para_def del_mark_def ins_mark_def text_run_def w_tag_def)
  have h4: "mark_text (w_tag ''t'') ?el \<noteq> []" by code_simp
  have h5: "paragraph_step ?p initial_state = Inr ?s'" by code_simp
  have r1: "mark_id 1 ?el = str 1"
    by (rule th [THEN conjunct1, THEN mp, OF h1])
  have "length (paragraph_deletions ?p 1) \<le> 1
            \<and> (\<forall>d\<in>set (paragraph_deletions ?p 1). fst d = str 1)"
    by (rule th [THEN conjunct2, THEN conjunct1, THEN mp, OF h2])
  then have r2: "length (paragraph_deletions ?p 1) \<le> 1" by (rule conjunct1)
  have q: "\<forall>d\<in>set (paragraph_deletions ?p 1).
               next_match (paragraph_insertions ?p 1) (fst d) \<noteq> None"
    by (rule th [THEN conjunct2, THEN conjunct2, THEN conjunct1, THEN mp])
       (intro conjI h1 h2 h3 h4)
  have d: "paragraph_deletions ?p 1 = [(''1'', ''A B'')]" by code_simp
  have "(''1'', ''A B'') \<in> set (paragraph_deletions ?p 1)" by (simp only: d) simp
  with q have r3: "next_match (paragraph_insertions ?p 1) (fst (''1'', ''A B'')) \<noteq> None"
    by (rule bspec)
  have r4: "unique_id initial_state \<le> unique_id ?s'"
    by (rule th [THEN conjunct2, THEN conjunct2, THEN conjunct2, THEN mp, OF h5])
  from r1 r2 r3 h5 r4 show ?thesis by (intro conjI)
qed

subsection \<open>Exceptions\<close>

text \<open>
  C7: the extraction raises UnboundLocalError on a parsed document whose first edit is
  a tracked deletion of a single space (the sentence \<open>Hello world\<close> with a second space
  deleted between the words): the two context variables are assigned only for a deletion
  with non-whitespace text and are read for every deletion.  A document without
  paragraphs yields no rows.
\<close>

theorem extraction_raises:
  "extract_tracked_changes
     (document [para [text_run ''Hello '', del_mark [w_tag ''id'' \<mapsto> ''3''] '' '',
                      text_run ''world'']])
     = Inl UnboundLocalError
   \<and> extract_tracked_changes (document []) = Inr []"
  by code_simp

end
